theory Spec2Isabelle
  imports Main
begin

section \<open>Faults and checked container access\<close>

text \<open>
  The C++ code signals failure by exceptions (\<open>std::out_of_range\<close> from
  \<open>vector::at\<close> and \<open>map::at\<close>, \<open>std::length_error\<close> from a vector
  constructor or \<open>reserve\<close>, a plain \<open>std::exception\<close> where a handler
  throws a copy of what it caught by reference to the base class), by a failed
  \<open>assert\<close>, or it leaves the defined language
  (an unchecked index outside a \<open>std::array\<close>, a dereferenced or twice deleted
  pointer).  Every such exit is a value here.
\<close>

datatype fault = OutOfRange | LengthError | StdException | AssertionFailed | UndefinedBehaviour

text \<open>
  \<open>std::vector::at\<close> called with an \<open>int\<close>.  The argument converts to
  \<open>size_t\<close>; a negative \<open>int\<close> becomes a value of at least \<open>2^63\<close>,
  beyond the size of any vector, so \<open>at\<close> throws for it.
\<close>

definition vector_at :: "'a list \<Rightarrow> int \<Rightarrow> fault + 'a" where
  "vector_at xs i = (if 0 \<le> i \<and> nat i < length xs then Inr (xs ! nat i) else Inl OutOfRange)"

section \<open>Organ type names and numbers\<close>

definition organTypeNames :: "string list" where
  "organTypeNames = [''organ'', ''seed'', ''root'', ''stem'', ''leaf'']"

text \<open>
  \<open>Organism::organTypeNumber\<close>: the \<open>while\<close> loop compares \<open>name\<close> with
  \<open>organTypeNames.at(ot)\<close> and increments \<open>ot\<close>.  The handler catches the
  exception of \<open>at\<close> as \<open>const std::exception& e\<close>, prints a message and
  executes \<open>throw(e)\<close>, which throws a copy of static type \<open>std::exception\<close>.
  \<open>Organism::organTypeName\<close> has the same handler around \<open>organTypeNames.at(ot)\<close>.
\<close>

function organTypeNumber_loop :: "string \<Rightarrow> int \<Rightarrow> fault + int" where
  "organTypeNumber_loop name ot =
     (case vector_at organTypeNames ot of
        Inl e \<Rightarrow> Inl e
      | Inr n \<Rightarrow> if name \<noteq> n then organTypeNumber_loop name (ot + 1) else Inr ot)"
  by pat_completeness auto
termination
  by (relation "measure (\<lambda>(name, ot). nat (int (length organTypeNames) - ot))")
     (auto simp: vector_at_def split: if_splits)

declare organTypeNumber_loop.simps [simp del]

definition organTypeNumber :: "string \<Rightarrow> fault + int" where
  "organTypeNumber name =
     (case organTypeNumber_loop name 0 of Inl e \<Rightarrow> Inl StdException | Inr ot \<Rightarrow> Inr ot)"

definition organTypeName :: "int \<Rightarrow> fault + string" where
  "organTypeName ot =
     (case vector_at organTypeNames ot of Inl e \<Rightarrow> Inl StdException | Inr n \<Rightarrow> Inr n)"

section \<open>The registry of organ type parameters\<close>

text \<open>
  Pointers are addresses; \<open>nullptr\<close> is address 0.  An \<open>OrganTypeParameter\<close>
  lives on the heap; its constructor (OrganParameter.cpp) stores the owning organism in
  \<open>plant\<close> and registers the two integer members \<open>organType\<close> and \<open>subType\<close>.
\<close>

type_synonym ptr = nat

definition nullptr :: ptr where
  "nullptr = 0"

record OrganTypeParameter =
  plant :: ptr
  organType :: int
  subType :: int

type_synonym otp_heap = "ptr \<rightharpoonup> OrganTypeParameter"

text \<open>
  Modelled from the spec: the constant \<open>numberOfOrganTypes\<close> of Organism.h, which is not
  among the sources.  The spec fixes the organ kinds to the numbers 0 to 4, the length of
  the table \<open>organTypeNames\<close>.
\<close>

definition numberOfOrganTypes :: int where
  "numberOfOrganTypes = 5"

text \<open>
  The members of \<open>Organism\<close> that Organism.cpp reads and writes; the class is declared
  in Organism.h, which is not among the sources.  The uses \<open>organParam[ot]\<close> for
  \<open>ot < numberOfOrganTypes\<close>, \<open>organParam[ot].at(subtype)\<close> and
  \<open>organParam[otype][subtype] = p\<close> show an array with one \<open>std::map\<close> from sub
  type to prototype pointer per organ type.  The type of an organ, of a \<open>double\<close> and
  of the random generator are parameters.  An \<open>int\<close> is an integer: the code adds and
  subtracts 1 and takes differences of node ids, far from the ends of the range.
\<close>

record ('o, 'd, 'g) Organism =
  baseOrgans :: "'o list"
  organParam :: "(int \<rightharpoonup> ptr) list"
  simtime :: 'd
  organId :: int
  nodeId :: int
  oldNumberOfNodes :: int
  oldNumberOfOrgans :: int
  gen :: 'g

text \<open>
  \<open>organParam[ot]\<close>: the subscript of an array is unchecked, an index outside the
  array leaves the defined language.
\<close>

definition array_subscript :: "'a list \<Rightarrow> int \<Rightarrow> fault + 'a" where
  "array_subscript xs i =
     (if 0 \<le> i \<and> nat i < length xs then Inr (xs ! nat i) else Inl UndefinedBehaviour)"

text \<open>
  \<open>Organism::getOrganTypeParameter(ot, subtype)\<close>: \<open>organParam[ot].at(subtype)\<close>;
  \<open>map::at\<close> throws \<open>std::out_of_range\<close> for a missing key, the handler prints a
  message and throws the exception again.
\<close>

definition getOrganTypeParameter ::
  "('o, 'd, 'g) Organism \<Rightarrow> int \<Rightarrow> int \<Rightarrow> fault + ptr" where
  "getOrganTypeParameter s ot subtype =
     (case array_subscript (organParam s) ot of
        Inl e \<Rightarrow> Inl e
      | Inr m \<Rightarrow> (case m subtype of None \<Rightarrow> Inl OutOfRange | Some p \<Rightarrow> Inr p))"

text \<open>
  \<open>map::operator[]\<close> inserts a value-initialised entry (\<open>nullptr\<close>) for a missing
  key and returns the entry.
\<close>

definition map_subscript :: "(int \<rightharpoonup> ptr) \<Rightarrow> int \<Rightarrow> (int \<rightharpoonup> ptr) \<times> ptr" where
  "map_subscript m k = (case m k of None \<Rightarrow> (m(k \<mapsto> nullptr), nullptr) | Some q \<Rightarrow> (m, q))"

text \<open>
  \<open>delete q\<close>: nothing for \<open>nullptr\<close>, the object is released when \<open>q\<close> points to a
  live one, and undefined otherwise.
\<close>

definition delete_otp :: "ptr \<Rightarrow> otp_heap \<Rightarrow> fault + otp_heap" where
  "delete_otp q h =
     (if q = nullptr then Inr h
      else if q \<in> dom h then Inr (h(q := None))
      else Inl UndefinedBehaviour)"

text \<open>
  \<open>Organism::setOrganTypeParameter(p)\<close>, called on the organism at address \<open>this\<close>.
  The \<open>assert\<close> is compiled out when \<open>NDEBUG\<close> is defined.  No statement of the
  \<open>try\<close> block throws, so the handler is never entered.
\<close>

definition setOrganTypeParameter ::
  "bool \<Rightarrow> ptr \<Rightarrow> ptr \<Rightarrow> ('o, 'd, 'g) Organism \<times> otp_heap
     \<Rightarrow> fault + (('o, 'd, 'g) Organism \<times> otp_heap)" where
  "setOrganTypeParameter NDEBUG this p sh =
     (case sh of (s, h) \<Rightarrow>
       (case h p of
          None \<Rightarrow> Inl UndefinedBehaviour
        | Some P \<Rightarrow>
            if \<not> NDEBUG \<and> plant P \<noteq> this then Inl AssertionFailed
            else
              let otype = organType P; subtype = subType P in
              (case array_subscript (organParam s) otype of
                 Inl e \<Rightarrow> Inl e
               | Inr m \<Rightarrow>
                   (case map_subscript m subtype of (m1, old) \<Rightarrow>
                     (case delete_otp old h of
                        Inl e \<Rightarrow> Inl e
                      | Inr h' \<Rightarrow>
                          Inr (s\<lparr>organParam := (organParam s)[nat otype := m1(subtype \<mapsto> p)]\<rparr>,
                               h'))))))"

section \<open>Vectors, unsigned indices and loops\<close>

text \<open>
  An \<open>int\<close> converted to \<open>size_t\<close> (64 bit): a negative value wraps around.
  \<open>size_t_pred n\<close> is \<open>n - 1\<close> computed in \<open>size_t\<close>, where \<open>0 - 1\<close> is the
  largest value.
\<close>

definition size_t_of_int :: "int \<Rightarrow> nat" where
  "size_t_of_int i = (if 0 \<le> i then nat i else 2 ^ 64 - nat (- i))"

definition size_t_pred :: "nat \<Rightarrow> nat" where
  "size_t_pred n = (if n = 0 then 2 ^ 64 - 1 else n - 1)"

text \<open>
  \<open>std::vector<T> v(n)\<close> with an \<open>int\<close> \<open>n\<close>: \<open>n\<close> value-initialised elements
  \<open>d\<close>; a negative \<open>n\<close> converts to a size no vector can have and the constructor
  throws.
\<close>

definition new_vector :: "int \<Rightarrow> 'a \<Rightarrow> fault + 'a list" where
  "new_vector n d = (if 0 \<le> n then Inr (replicate (nat n) d) else Inl LengthError)"

text \<open>The assignment \<open>xs.at(i) = v\<close>.\<close>

definition vector_store :: "'a list \<Rightarrow> int \<Rightarrow> 'a \<Rightarrow> fault + 'a list" where
  "vector_store xs i v =
     (if 0 \<le> i \<and> nat i < length xs then Inr (xs[nat i := v]) else Inl OutOfRange)"

text \<open>
  The range-based loop \<open>for (const auto& x : xs) body\<close> and the counting loop
  \<open>for (size_t i = lo; i < hi; i++) body\<close>, both over a state and both left by the
  first exception.
\<close>

fun for_each :: "'x list \<Rightarrow> ('x \<Rightarrow> 's \<Rightarrow> fault + 's) \<Rightarrow> 's \<Rightarrow> fault + 's" where
  "for_each [] body s = Inr s"
| "for_each (x # xs) body s =
     (case body x s of Inl e \<Rightarrow> Inl e | Inr s' \<Rightarrow> for_each xs body s')"

function for_loop :: "nat \<Rightarrow> nat \<Rightarrow> (nat \<Rightarrow> 's \<Rightarrow> fault + 's) \<Rightarrow> 's \<Rightarrow> fault + 's" where
  "for_loop i hi body s =
     (if i < hi
      then (case body i s of Inl e \<Rightarrow> Inl e | Inr s' \<Rightarrow> for_loop (i + 1) hi body s')
      else Inr s)"
  by pat_completeness auto
termination
  by (relation "measure (\<lambda>(i, hi, body, s). hi - i)") auto

declare for_loop.simps [simp del]

text \<open>
  Two loop bodies that recur: a store given as a pair of index and value, and the store
  at a running counter \<open>si.at(c) = v; c++\<close>.
\<close>

definition store_pair :: "int \<times> 'a \<Rightarrow> 'a list \<Rightarrow> fault + 'a list" where
  "store_pair kv xs = vector_store xs (fst kv) (snd kv)"

definition store_next :: "'a \<Rightarrow> 'a list \<times> int \<Rightarrow> fault + ('a list \<times> int)" where
  "store_next v sc =
     (case vector_store (fst sc) (snd sc) v of
        Inl e \<Rightarrow> Inl e
      | Inr si' \<Rightarrow> Inr (si', snd sc + 1))"

text \<open>
  What filling a fresh vector from the front gives: a vector of \<open>n\<close> elements \<open>d\<close>
  whose first slots are then stored one after another with the elements of \<open>xs\<close>.  The
  constructor throws for a negative \<open>n\<close>, the store beyond the end throws.
\<close>

definition filled :: "int \<Rightarrow> 'a \<Rightarrow> 'a list \<Rightarrow> fault + 'a list" where
  "filled n d xs =
     (if n < 0 then Inl LengthError
      else if length xs \<le> nat n then Inr (xs @ replicate (nat n - length xs) d)
      else Inl OutOfRange)"

section \<open>Organs\<close>

text \<open>
  An organ as Organism.cpp sees it.  \<open>nodes\<close>, \<open>nodeIds\<close>, \<open>nodeCTs\<close> and
  \<open>children\<close> are the members of Organ.h.  That header declares neither
  \<open>getOldNumberOfNodes()\<close> nor \<open>hasMoved()\<close>, and \<open>organType()\<close> and
  \<open>getParameter(name)\<close> are virtual: the values these four calls return are fields of
  the model.  \<open>'v\<close> stands for \<open>Vector3d\<close> and \<open>'d\<close> for \<open>double\<close>.  The other
  members (\<open>plant\<close>, \<open>id\<close>, \<open>param_\<close>, \<open>parent\<close>, \<open>alive\<close>, \<open>active\<close>,
  \<open>age\<close>, \<open>length\<close>) are not read by the functions below.
\<close>

datatype ('v, 'd) Organ = Organ
  (Organ_organType: int)
  (nodes: "'v list")
  (nodeIds: "int list")
  (nodeCTs: "'d list")
  (getOldNumberOfNodes: int)
  (hasMoved: int)
  (Organ_getParameter: "string \<Rightarrow> 'd")
  (children: "('v, 'd) Organ list")

definition Organ_getNumberOfNodes :: "('v, 'd) Organ \<Rightarrow> nat" where
  "Organ_getNumberOfNodes r = length (nodes r)"

definition Organ_getNode :: "('v, 'd) Organ \<Rightarrow> int \<Rightarrow> fault + 'v" where
  "Organ_getNode r i = vector_at (nodes r) i"

definition Organ_getNodeId :: "('v, 'd) Organ \<Rightarrow> int \<Rightarrow> fault + int" where
  "Organ_getNodeId r i = vector_at (nodeIds r) i"

definition Organ_getNodeCT :: "('v, 'd) Organ \<Rightarrow> int \<Rightarrow> fault + 'd" where
  "Organ_getNodeCT r i = vector_at (nodeCTs r) i"

text \<open>
  Modelled from the spec: \<open>Organ::getOrgans(otype, v)\<close> of Organ.cpp, which is not
  among the sources.  The traversal is depth first, the parent before its children, the
  children in their stored order; an organ is listed only if it has more than one node
  and matches the filter, where -1 stands for every organ type.
\<close>

fun Organ_getOrgans :: "int \<Rightarrow> ('v, 'd) Organ \<Rightarrow> ('v, 'd) Organ list" where
  "Organ_getOrgans ot (Organ t ns ids cts onon mv par cs) =
     (if 1 < length ns \<and> (ot = - 1 \<or> ot = t) then [Organ t ns ids cts onon mv par cs] else [])
     @ concat (map (Organ_getOrgans ot) cs)"

section \<open>The organism: counters, simulation step and flattened queries\<close>

type_synonym ('v, 'd, 'g) organism = "(('v, 'd) Organ, 'd, 'g) Organism"

text \<open>
  Modelled from the spec: the inline getters \<open>getNumberOfNodes()\<close>,
  \<open>getNumberOfOrgans()\<close> and \<open>getNumberOfNewNodes()\<close> of Organism.h, which is not
  among the sources.  The number of nodes is the node id counter, the number of organs the
  organ id counter, and the number of new nodes the node id counter minus the node count
  recorded at the start of the last step.
\<close>

definition getNumberOfNodes :: "('o, 'd, 'g) Organism \<Rightarrow> int" where
  "getNumberOfNodes s = nodeId s"

definition getNumberOfOrgans :: "('o, 'd, 'g) Organism \<Rightarrow> int" where
  "getNumberOfOrgans s = organId s"

definition getNumberOfNewNodes :: "('o, 'd, 'g) Organism \<Rightarrow> int" where
  "getNumberOfNewNodes s = getNumberOfNodes s - oldNumberOfNodes s"

text \<open>
  \<open>Organism::simulate(dt, verbose)\<close>.  \<open>Organ::simulate\<close> is virtual and its
  definitions are not among the sources: it is the parameter \<open>osim\<close>.  An organ reaches
  the organism through its \<open>plant\<close> pointer, so \<open>osim\<close> maps the organ and the
  organism to the grown organ and the organism it leaves, or throws.  The base organs are
  objects held by pointer and changed in place: the call on the organ at place \<open>i\<close>
  takes the organism as the calls before it left it, with the organs before place \<open>i\<close>
  already grown, and the grown organ takes its place in \<open>baseOrgans\<close>.  The loop runs
  over the places the vector had when the loop began; a place that is gone by then leaves
  the defined language.
\<close>

definition simulate_organ ::
  "('d \<Rightarrow> bool \<Rightarrow> 'o \<Rightarrow> ('o, 'd, 'g) Organism \<Rightarrow> fault + ('o \<times> ('o, 'd, 'g) Organism))
     \<Rightarrow> 'd \<Rightarrow> bool \<Rightarrow> nat \<Rightarrow> ('o, 'd, 'g) Organism \<Rightarrow> fault + ('o, 'd, 'g) Organism" where
  "simulate_organ osim dt verbose i s =
     (if i < length (baseOrgans s)
      then (case osim dt verbose (baseOrgans s ! i) s of
              Inl e \<Rightarrow> Inl e
            | Inr (r', s') \<Rightarrow> Inr (s'\<lparr>baseOrgans := (baseOrgans s')[i := r']\<rparr>))
      else Inl UndefinedBehaviour)"

definition simulate ::
  "('d \<Rightarrow> bool \<Rightarrow> 'o \<Rightarrow> ('o, 'd, 'g) Organism \<Rightarrow> fault + ('o \<times> ('o, 'd, 'g) Organism))
     \<Rightarrow> 'd::plus \<Rightarrow> bool \<Rightarrow> ('o, 'd, 'g) Organism \<Rightarrow> fault + ('o, 'd, 'g) Organism" where
  "simulate osim dt verbose s =
     (let s1 = s\<lparr>oldNumberOfNodes := getNumberOfNodes s\<rparr>;
          s2 = s1\<lparr>oldNumberOfOrgans := getNumberOfOrgans s1\<rparr>
      in case for_loop 0 (length (baseOrgans s2)) (simulate_organ osim dt verbose) s2 of
           Inl e \<Rightarrow> Inl e
         | Inr s3 \<Rightarrow> Inr (s3\<lparr>simtime := simtime s3 + dt\<rparr>))"

text \<open>
  The condition on \<open>Organ::simulate\<close> under which the step is stated: an organ does not
  touch the simulated time or the two recorded counts of its organism, and it neither adds
  nor removes base organs.
\<close>

definition keeps_step_record ::
  "('d \<Rightarrow> bool \<Rightarrow> 'o \<Rightarrow> ('o, 'd, 'g) Organism \<Rightarrow> fault + ('o \<times> ('o, 'd, 'g) Organism))
     \<Rightarrow> bool" where
  "keeps_step_record osim =
     (\<forall>dt verbose r s r' s'. osim dt verbose r s = Inr (r', s') \<longrightarrow>
        simtime s' = simtime s \<and> oldNumberOfNodes s' = oldNumberOfNodes s
        \<and> oldNumberOfOrgans s' = oldNumberOfOrgans s
        \<and> length (baseOrgans s') = length (baseOrgans s))"

text \<open>
  \<open>Organism::getOrgans(ot)\<close>.  \<open>organs.reserve(getNumberOfOrgans())\<close> converts an
  \<open>int\<close> to a size and throws \<open>std::length_error\<close> for a negative one; then every
  base organ appends its traversal.
\<close>

definition getOrgans :: "int \<Rightarrow> ('v, 'd, 'g) organism \<Rightarrow> fault + ('v, 'd) Organ list" where
  "getOrgans ot s =
     (if getNumberOfOrgans s < 0 then Inl LengthError
      else Inr (foldl (\<lambda>organs r. organs @ Organ_getOrgans ot r) [] (baseOrgans s)))"

text \<open>The list \<open>getOrgans(ot)\<close> returns: the traversals of the base organs in a row.\<close>

definition traversal :: "int \<Rightarrow> ('v, 'd, 'g) organism \<Rightarrow> ('v, 'd) Organ list" where
  "traversal ot s = concat (map (Organ_getOrgans ot) (baseOrgans s))"

text \<open>
  \<open>Organism::getParameter(name, ot, organs)\<close>.  A \<open>double\<close> is any type with a
  constant 0 and an addition; no law of the addition is used.
\<close>

function getParameter_loop ::
  "string \<Rightarrow> ('v, 'd) Organ list \<Rightarrow> nat \<Rightarrow> 'd list \<Rightarrow> 'd list" where
  "getParameter_loop name organs i p =
     (if i < length organs
      then getParameter_loop name organs (i + 1) (p[i := Organ_getParameter (organs ! i) name])
      else p)"
  by pat_completeness auto
termination
  by (relation "measure (\<lambda>(name, organs, i, p). length organs - i)") auto

declare getParameter_loop.simps [simp del]

definition getParameter ::
  "string \<Rightarrow> int \<Rightarrow> ('v, 'd) Organ list \<Rightarrow> ('v, 'd::zero, 'g) organism
     \<Rightarrow> fault + 'd list" where
  "getParameter name ot organs s =
     (case (if organs = [] then getOrgans ot s else Inr organs) of
        Inl e \<Rightarrow> Inl e
      | Inr organs1 \<Rightarrow>
          (let p = replicate (length organs1) 0
           in Inr (getParameter_loop name organs1 0 p)))"

text \<open>\<open>std::accumulate(first, last, init)\<close> adds the elements to \<open>init\<close> from the left.\<close>

definition accumulate :: "'d list \<Rightarrow> 'd \<Rightarrow> 'd::plus" where
  "accumulate v init = foldl (\<lambda>acc x. acc + x) init v"

definition getSummed ::
  "string \<Rightarrow> int \<Rightarrow> ('v, 'd::{zero,plus}, 'g) organism \<Rightarrow> fault + 'd" where
  "getSummed name ot s =
     (case getParameter name ot [] s of
        Inl e \<Rightarrow> Inl e
      | Inr v \<Rightarrow> Inr (accumulate v 0))"

section \<open>Node and segment queries\<close>

text \<open>
  The statement \<open>nv.at(o->getNodeId(i) - off) = o->getNode(i)\<close> of \<open>getNodes\<close>
  (\<open>off\<close> is 0 there) and \<open>getNewNodes\<close>, and its twin for creation times.
\<close>

definition copy_node :: "('v, 'd) Organ \<Rightarrow> int \<Rightarrow> int \<Rightarrow> 'v list \<Rightarrow> fault + 'v list" where
  "copy_node r i off nv =
     (case Organ_getNodeId r i of
        Inl e \<Rightarrow> Inl e
      | Inr k \<Rightarrow> (case Organ_getNode r i of
                    Inl e \<Rightarrow> Inl e
                  | Inr v \<Rightarrow> vector_store nv (k - off) v))"

definition copy_nodeCT :: "('v, 'd) Organ \<Rightarrow> int \<Rightarrow> int \<Rightarrow> 'd list \<Rightarrow> fault + 'd list" where
  "copy_nodeCT r i off cts =
     (case Organ_getNodeId r i of
        Inl e \<Rightarrow> Inl e
      | Inr k \<Rightarrow> (case Organ_getNodeCT r i of
                    Inl e \<Rightarrow> Inl e
                  | Inr v \<Rightarrow> vector_store cts (k - off) v))"

text \<open>
  \<open>Organism::getNodes()\<close>; \<open>dflt\<close> is the default constructed \<open>Vector3d\<close>.  The
  first loop copies node 0 of every base organ, the second all nodes of the organs of the
  traversal.  Here and below a call \<open>getOrgans()\<close> without an argument passes -1, which
  the comments of Organism.cpp name as the default that stands for all organ types.
\<close>

definition getNodes :: "'v \<Rightarrow> ('v, 'd, 'g) organism \<Rightarrow> fault + 'v list" where
  "getNodes dflt s =
     (case getOrgans (- 1) s of
        Inl e \<Rightarrow> Inl e
      | Inr organs \<Rightarrow>
          (case new_vector (getNumberOfNodes s) dflt of
             Inl e \<Rightarrow> Inl e
           | Inr nv \<Rightarrow>
               (case for_each (baseOrgans s) (\<lambda>r. copy_node r 0 0) nv of
                  Inl e \<Rightarrow> Inl e
                | Inr nv1 \<Rightarrow>
                    for_each organs
                      (\<lambda>r. for_loop 0 (Organ_getNumberOfNodes r)
                             (\<lambda>i. copy_node r (int i) 0)) nv1)))"

text \<open>\<open>Organism::getUpdatedNodeIndices()\<close> and \<open>Organism::getUpdatedNodes()\<close>.\<close>

definition getUpdatedNodeIndices :: "('v, 'd, 'g) organism \<Rightarrow> fault + int list" where
  "getUpdatedNodeIndices s =
     (case getOrgans (- 1) s of
        Inl e \<Rightarrow> Inl e
      | Inr organs \<Rightarrow>
          for_each organs
            (\<lambda>r ni. if hasMoved r > 0
                     then (case Organ_getNodeId r (getOldNumberOfNodes r - 1) of
                             Inl e \<Rightarrow> Inl e
                           | Inr k \<Rightarrow> Inr (ni @ [k]))
                     else Inr ni) [])"

definition getUpdatedNodes :: "('v, 'd, 'g) organism \<Rightarrow> fault + 'v list" where
  "getUpdatedNodes s =
     (case getOrgans (- 1) s of
        Inl e \<Rightarrow> Inl e
      | Inr organs \<Rightarrow>
          for_each organs
            (\<lambda>r nv. if hasMoved r > 0
                     then (case Organ_getNode r (getOldNumberOfNodes r - 1) of
                             Inl e \<Rightarrow> Inl e
                           | Inr v \<Rightarrow> Inr (nv @ [v]))
                     else Inr nv) [])"

text \<open>
  \<open>Organism::getNewNodes()\<close>.  The loop of one organ starts at
  \<open>size_t i = onon\<close> with the \<open>int\<close> \<open>onon = o->getOldNumberOfNodes()\<close>.
\<close>

definition getNewNodes_organ ::
  "int \<Rightarrow> ('v, 'd) Organ \<Rightarrow> 'v list \<Rightarrow> fault + 'v list" where
  "getNewNodes_organ off r nv =
     (let onon = getOldNumberOfNodes r in
      for_loop (size_t_of_int onon) (Organ_getNumberOfNodes r)
        (\<lambda>i. copy_node r (int i) off) nv)"

definition getNewNodes :: "'v \<Rightarrow> ('v, 'd, 'g) organism \<Rightarrow> fault + 'v list" where
  "getNewNodes dflt s =
     (case getOrgans (- 1) s of
        Inl e \<Rightarrow> Inl e
      | Inr organs \<Rightarrow>
          (case new_vector (getNumberOfNewNodes s) dflt of
             Inl e \<Rightarrow> Inl e
           | Inr nv \<Rightarrow> for_each organs (getNewNodes_organ (oldNumberOfNodes s)) nv))"

text \<open>
  \<open>Organism::getNewSegments(ot)\<close>.  The state of the loops is the vector \<open>si\<close> and
  the counter \<open>c\<close>; \<open>Vector2i\<close> is a pair of \<open>int\<close> and \<open>dflt\<close> its default
  value.  The loop of one organ runs from \<open>size_t i = onon - 1\<close> while
  \<open>i < o->getNumberOfNodes() - 1\<close>, with \<open>onon = std::abs(o->getOldNumberOfNodes())\<close>.
\<close>

type_synonym Vector2i = "int \<times> int"

definition getNewSegments_organ ::
  "('v, 'd) Organ \<Rightarrow> Vector2i list \<times> int \<Rightarrow> fault + (Vector2i list \<times> int)" where
  "getNewSegments_organ r =
     (let onon = \<bar>getOldNumberOfNodes r\<bar> in
      for_loop (size_t_of_int (onon - 1)) (size_t_pred (Organ_getNumberOfNodes r))
        (\<lambda>i (si, c).
           case Organ_getNodeId r (int i) of
             Inl e \<Rightarrow> Inl e
           | Inr a \<Rightarrow> (case Organ_getNodeId r (int (i + 1)) of
                         Inl e \<Rightarrow> Inl e
                       | Inr b \<Rightarrow> (case vector_store si c (a, b) of
                                     Inl e \<Rightarrow> Inl e
                                   | Inr si' \<Rightarrow> Inr (si', c + 1)))))"

definition getNewSegments ::
  "Vector2i \<Rightarrow> int \<Rightarrow> ('v, 'd, 'g) organism \<Rightarrow> fault + Vector2i list" where
  "getNewSegments dflt ot s =
     (case getOrgans ot s of
        Inl e \<Rightarrow> Inl e
      | Inr organs \<Rightarrow>
          (case new_vector (getNumberOfNewNodes s) dflt of
             Inl e \<Rightarrow> Inl e
           | Inr si \<Rightarrow> (case for_each organs getNewSegments_organ (si, 0) of
                          Inl e \<Rightarrow> Inl e
                        | Inr (si', c) \<Rightarrow> Inr si')))"

text \<open>
  \<open>Organism::getNewSegmentOrigins(ot)\<close>: a vector of organ pointers, \<open>None\<close> for
  the \<open>nullptr\<close> the vector is created with.
\<close>

definition getNewSegmentOrigins_organ ::
  "('v, 'd) Organ \<Rightarrow> ('v, 'd) Organ option list \<times> int
     \<Rightarrow> fault + (('v, 'd) Organ option list \<times> int)" where
  "getNewSegmentOrigins_organ r =
     (let onon = \<bar>getOldNumberOfNodes r\<bar> in
      for_loop (size_t_of_int (onon - 1)) (size_t_pred (Organ_getNumberOfNodes r))
        (\<lambda>i (si, c).
           case vector_store si c (Some r) of
             Inl e \<Rightarrow> Inl e
           | Inr si' \<Rightarrow> Inr (si', c + 1)))"

definition getNewSegmentOrigins ::
  "int \<Rightarrow> ('v, 'd, 'g) organism \<Rightarrow> fault + ('v, 'd) Organ option list" where
  "getNewSegmentOrigins ot s =
     (case getOrgans ot s of
        Inl e \<Rightarrow> Inl e
      | Inr organs \<Rightarrow>
          (case new_vector (getNumberOfNewNodes s) None of
             Inl e \<Rightarrow> Inl e
           | Inr si \<Rightarrow> (case for_each organs getNewSegmentOrigins_organ (si, 0) of
                          Inl e \<Rightarrow> Inl e
                        | Inr (si', c) \<Rightarrow> Inr si')))"

text \<open>
  \<open>Organism::getNewSegmentCTs(ot)\<close>.  The source calls \<open>getOrgans()\<close> without
  passing \<open>ot\<close> on; the vector of \<open>double\<close> starts with zeros.
\<close>

definition getNewSegmentCTs_organ ::
  "int \<Rightarrow> ('v, 'd) Organ \<Rightarrow> 'd list \<Rightarrow> fault + 'd list" where
  "getNewSegmentCTs_organ off r cts =
     (let onon = \<bar>getOldNumberOfNodes r\<bar> in
      for_loop (size_t_of_int onon) (Organ_getNumberOfNodes r)
        (\<lambda>i. copy_nodeCT r (int i) off) cts)"

definition getNewSegmentCTs ::
  "int \<Rightarrow> ('v, 'd::zero, 'g) organism \<Rightarrow> fault + 'd list" where
  "getNewSegmentCTs ot s =
     (case getOrgans (- 1) s of
        Inl e \<Rightarrow> Inl e
      | Inr organs \<Rightarrow>
          (case new_vector (getNumberOfNewNodes s) 0 of
             Inl e \<Rightarrow> Inl e
           | Inr cts \<Rightarrow> for_each organs (getNewSegmentCTs_organ (oldNumberOfNodes s)) cts))"

section \<open>Notions the statements about the last step use\<close>

text \<open>
  An organ whose last step only moved its tip: \<open>hasMoved()\<close> is positive and the
  number of nodes is still the one recorded before the step.
\<close>

definition only_moved :: "('v, 'd) Organ \<Rightarrow> bool" where
  "only_moved r = (0 < hasMoved r \<and> getOldNumberOfNodes r = int (length (nodes r)))"

text \<open>
  The local indices \<open>j\<close> of the segments from node \<open>j\<close> to node \<open>j + 1\<close>.  The loops
  of the new-segment queries visit the indices from the absolute value of the recorded
  count minus 1 when the recorded count is not 0; at 0 the unsigned loop variable starts at
  its largest value and the body never runs.  The spec names the indices from the maximum
  of 1 and the old node count of the organ, minus 1; its old node count is the magnitude of
  the recorded value, whose sign is a flag of its own.
\<close>

definition newSegmentIndices :: "('v, 'd) Organ \<Rightarrow> nat list" where
  "newSegmentIndices r = [nat (\<bar>getOldNumberOfNodes r\<bar> - 1) ..< length (nodes r) - 1]"

definition spec_newSegmentIndices :: "('v, 'd) Organ \<Rightarrow> nat list" where
  "spec_newSegmentIndices r =
     [nat (max 1 \<bar>getOldNumberOfNodes r\<bar> - 1) ..< length (nodes r) - 1]"

definition segment :: "('v, 'd) Organ \<Rightarrow> nat \<Rightarrow> Vector2i" where
  "segment r j = (nodeIds r ! j, nodeIds r ! (j + 1))"

text \<open>
  The ids of the nodes appended in the last step, organ by organ in the order of the
  traversal: the ids from the recorded count on.
\<close>

definition newNodeIds :: "('v, 'd, 'g) organism \<Rightarrow> int list" where
  "newNodeIds s =
     concat (map (\<lambda>r. drop (nat (getOldNumberOfNodes r)) (nodeIds r)) (traversal (- 1) s))"

text \<open>
  The stores \<open>getNewNodes()\<close> performs when no recorded count is negative, in program
  order: for every organ of the traversal and every local index from the recorded count
  on, the slot (the node id minus the old node count of the organism) and the node.
\<close>

definition newNodeStores :: "('v, 'd, 'g) organism \<Rightarrow> (int \<times> 'v) list" where
  "newNodeStores s =
     concat (map (\<lambda>r. map (\<lambda>i. (nodeIds r ! i - oldNumberOfNodes s, nodes r ! i))
                          [nat (getOldNumberOfNodes r) ..< length (nodes r)])
               (traversal (- 1) s))"

text \<open>
  The number of the entry that the organ at place \<open>j\<close> of a traversal has in the
  vectors of moved nodes: the count of organs with a positive \<open>hasMoved()\<close> before it.
\<close>

definition entry_number :: "('v, 'd) Organ list \<Rightarrow> nat \<Rightarrow> nat" where
  "entry_number organs j = length (filter (\<lambda>q. 0 < hasMoved q) (take j organs))"

section \<open>Example states\<close>

text \<open>
  An organism at address 100 without organs, with one registered prototype: the root
  prototype of sub type 1 at address 7.  The heap holds it and a second root prototype of
  sub type 1 at address 8.
\<close>

definition registry_example :: "(unit, int, unit) Organism" where
  "registry_example =
     \<lparr>baseOrgans = [],
      organParam = [Map.empty, Map.empty, [1 \<mapsto> 7], Map.empty, Map.empty],
      simtime = 0, organId = 0, nodeId = 0, oldNumberOfNodes = 0, oldNumberOfOrgans = 0,
      gen = ()\<rparr>"

definition heap_example :: otp_heap where
  "heap_example =
     [7 \<mapsto> \<lparr>plant = 100, organType = 2, subType = 1\<rparr>,
      8 \<mapsto> \<lparr>plant = 100, organType = 2, subType = 1\<rparr>]"

text \<open>
  A step function for a stand-in organ that is just its number of nodes: every call
  appends one node and draws one node id from the organism.  The last member of the
  organism stands for everything else an organ can change; here it keeps a log of the
  base organs each call found.
\<close>

definition step_example ::
  "int \<Rightarrow> bool \<Rightarrow> nat \<Rightarrow> (nat, int, nat list list) Organism
     \<Rightarrow> fault + (nat \<times> (nat, int, nat list list) Organism)" where
  "step_example dt verbose r s =
     Inr (r + 1, s\<lparr>nodeId := nodeId s + 1, gen := gen s @ [baseOrgans s]\<rparr>)"

definition growing_example :: "(nat, int, nat list list) Organism" where
  "growing_example =
     \<lparr>baseOrgans = [1, 4], organParam = replicate 5 Map.empty, simtime = 10, organId = 2,
      nodeId = 5, oldNumberOfNodes = 0, oldNumberOfOrgans = 0, gen = []\<rparr>"

text \<open>
  An organism after a step.  Before the step the tap root \<open>organ_A\<close> had the nodes
  0, 1, 2, its laterals \<open>organ_B\<close> and \<open>organ_C\<close> the nodes 1, 4 and 2, 5, and the
  second base organ \<open>organ_D\<close> its first node 3.  In the step \<open>organ_A\<close> appended node
  6, \<open>organ_B\<close> the nodes 7 and 8, and \<open>organ_C\<close> moved its tip.
\<close>

definition organ_B :: "(int \<times> int \<times> int, int) Organ" where
  "organ_B = Organ 2 [(0, 0, - 1), (1, 0, - 1), (2, 0, - 1), (3, 0, - 1)] [1, 4, 7, 8]
     [1, 2, 5, 6] 2 0 (\<lambda>name. 3) []"

definition organ_C :: "(int \<times> int \<times> int, int) Organ" where
  "organ_C = Organ 2 [(0, 0, - 2), (0, 1, - 2)] [2, 5] [2, 3] 2 1 (\<lambda>name. 1) []"

definition organ_A :: "(int \<times> int \<times> int, int) Organ" where
  "organ_A = Organ 2 [(0, 0, 0), (0, 0, - 1), (0, 0, - 2), (0, 0, - 3)] [0, 1, 2, 6]
     [0, 1, 2, 5] 3 0 (\<lambda>name. 3) [organ_B, organ_C]"

definition organ_D :: "(int \<times> int \<times> int, int) Organ" where
  "organ_D = Organ 2 [(5, 5, 0)] [3] [0] 1 0 (\<lambda>name. 0) []"

definition plant_example :: "(int \<times> int \<times> int, int, unit) organism" where
  "plant_example =
     \<lparr>baseOrgans = [organ_A, organ_D], organParam = replicate 5 Map.empty, simtime = 6,
      organId = 4,
      nodeId = 9, oldNumberOfNodes = 6, oldNumberOfOrgans = 4, gen = ()\<rparr>"

text \<open>
  A base organ with a single node whose tip was moved, and an organ whose recorded count
  carries a sign: two old nodes, one node appended.
\<close>

definition organ_F :: "(int \<times> int \<times> int, int) Organ" where
  "organ_F = Organ 2 [(0, 0, - 1)] [0] [0] 1 1 (\<lambda>name. 1) []"

definition seedling_example :: "(int \<times> int \<times> int, int, unit) organism" where
  "seedling_example =
     \<lparr>baseOrgans = [organ_F], organParam = replicate 5 Map.empty, simtime = 1, organId = 1,
      nodeId = 1, oldNumberOfNodes = 1, oldNumberOfOrgans = 1, gen = ()\<rparr>"

definition organ_E :: "(int \<times> int \<times> int, int) Organ" where
  "organ_E = Organ 2 [(0, 0, 0), (0, 0, - 1), (0, 0, - 2)] [0, 1, 2] [0, 1, 2] (- 2) 0
     (\<lambda>name. 2) []"




section \<open>Loops as lists of steps, stores into vectors\<close>

lemma for_loop_for_each: "for_loop i hi body s = for_each [i..<hi] body s"
proof (induction i hi body s rule: for_loop.induct)
  case (1 i hi body s)
  show ?case
  proof (cases "i < hi")
    case True
    then have u: "[i..<hi] = i # [i + 1..<hi]" by (simp add: upt_conv_Cons)
    show ?thesis
      using True "1.IH" u
      by (subst for_loop.simps) (simp split: sum.splits)
  next
    case False
    then show ?thesis by (subst for_loop.simps) simp
  qed
qed

lemma for_each_append:
  "for_each (xs @ ys) body s =
     (case for_each xs body s of Inl e \<Rightarrow> Inl e | Inr s' \<Rightarrow> for_each ys body s')"
  by (induction xs arbitrary: s) (simp_all split: sum.splits)

lemma for_each_cong:
  "(\<And>x s. x \<in> set xs \<Longrightarrow> f x s = g x s) \<Longrightarrow> for_each xs f s = for_each xs g s"
  by (induction xs arbitrary: s) (simp_all split: sum.splits)

lemma for_each_map: "for_each (map h xs) f s = for_each xs (\<lambda>x. f (h x)) s"
  by (induction xs arbitrary: s) (simp_all split: sum.splits)

lemma for_each_concat:
  "for_each xss (\<lambda>xs. for_each xs f) s = for_each (concat xss) f s"
  by (induction xss arbitrary: s) (simp_all add: for_each_append split: sum.splits)

lemma store_all_fails:
  "\<exists>kv \<in> set ws. \<not> (0 \<le> fst kv \<and> nat (fst kv) < length xs) \<Longrightarrow>
   for_each ws store_pair xs = Inl OutOfRange"
proof (induction ws arbitrary: xs)
  case Nil
  then show ?case by simp
next
  case (Cons w ws)
  show ?case
  proof (cases "0 \<le> fst w \<and> nat (fst w) < length xs")
    case False
    then show ?thesis by (auto simp: store_pair_def vector_store_def)
  next
    case True
    with Cons.prems have "\<exists>kv \<in> set ws. \<not> (0 \<le> fst kv \<and> nat (fst kv) < length (xs[nat (fst w) := snd w]))"
      by auto
    from Cons.IH [OF this] True show ?thesis
      by (simp add: store_pair_def vector_store_def)
  qed
qed

lemma store_all_result:
  "\<forall>kv \<in> set ws. 0 \<le> fst kv \<and> nat (fst kv) < length xs \<Longrightarrow>
   \<exists>res. for_each ws store_pair xs = Inr res \<and> length res = length xs
     \<and> (\<forall>j < length xs. (\<exists>v. (int j, v) \<in> set ws \<and> res ! j = v)
            \<or> (int j \<notin> fst ` set ws \<and> res ! j = xs ! j))"
proof (induction ws arbitrary: xs)
  case Nil
  then show ?case by simp
next
  case (Cons w ws)
  obtain k v where w: "w = (k, v)" by (cases w)
  from Cons.prems w have k: "0 \<le> k" "nat k < length xs" by auto
  let ?xs = "xs[nat k := v]"
  from Cons.prems have "\<forall>kv \<in> set ws. 0 \<le> fst kv \<and> nat (fst kv) < length ?xs" by simp
  from Cons.IH [OF this] obtain res where
    r: "for_each ws store_pair ?xs = Inr res" and l: "length res = length xs"
    and c: "\<forall>j < length xs. (\<exists>v'. (int j, v') \<in> set ws \<and> res ! j = v')
            \<or> (int j \<notin> fst ` set ws \<and> res ! j = ?xs ! j)"
    by auto
  have run: "for_each (w # ws) store_pair xs = Inr res"
    using r k w by (simp add: store_pair_def vector_store_def)
  have "\<forall>j < length xs. (\<exists>v'. (int j, v') \<in> set (w # ws) \<and> res ! j = v')
            \<or> (int j \<notin> fst ` set (w # ws) \<and> res ! j = xs ! j)"
  proof (intro allI impI)
    fix j assume j: "j < length xs"
    from c j consider (a) v' where "(int j, v') \<in> set ws" "res ! j = v'"
      | (b) "int j \<notin> fst ` set ws" "res ! j = ?xs ! j"
      by blast
    then show "(\<exists>v'. (int j, v') \<in> set (w # ws) \<and> res ! j = v')
            \<or> (int j \<notin> fst ` set (w # ws) \<and> res ! j = xs ! j)"
    proof cases
      case a
      then show ?thesis by auto
    next
      case b
      show ?thesis
      proof (cases "j = nat k")
        case True
        with b k j w show ?thesis by auto
      next
        case False
        with k have "int j \<noteq> k" by auto
        with b False w show ?thesis by auto
      qed
    qed
  qed
  with run l show ?case by blast
qed

lemma store_next_fill:
  "0 \<le> c \<Longrightarrow>
   for_each vs store_next (si, c) =
     (if vs = [] \<or> nat c + length vs \<le> length si
      then Inr (take (nat c) si @ vs @ drop (nat c + length vs) si, c + int (length vs))
      else Inl OutOfRange)"
proof (induction vs arbitrary: si c)
  case Nil
  then show ?case by simp
next
  case (Cons v vs)
  show ?case
  proof (cases "nat c < length si")
    case False
    with Cons.prems show ?thesis
      by (simp add: store_next_def vector_store_def)
  next
    case True
    let ?si = "si[nat c := v]"
    have step: "for_each (v # vs) store_next (si, c) = for_each vs store_next (?si, c + 1)"
      using True Cons.prems by (simp add: store_next_def vector_store_def)
    have c1: "0 \<le> c + 1" "nat (c + 1) = nat c + 1" using Cons.prems by auto
    have t: "take (nat c + 1) ?si = take (nat c) si @ [v]"
      using True by (simp add: take_Suc_conv_app_nth)
    show ?thesis
      unfolding step Cons.IH [OF c1(1)] c1(2)
      using True t by (auto simp: add.commute)
  qed
qed

text \<open>
  A loop that returns went through one state per round, each the result of the body on
  the one before; and a loop whose body returns on every state that keeps an invariant
  returns.
\<close>

lemma for_each_chain:
  "for_each xs body s = Inr t \<Longrightarrow>
   \<exists>ss. length ss = length xs + 1 \<and> ss ! 0 = s \<and> ss ! length xs = t
      \<and> (\<forall>k < length xs. body (xs ! k) (ss ! k) = Inr (ss ! (k + 1)))"
proof (induction xs arbitrary: s)
  case Nil
  then have "t = s" by simp
  then show ?case by (intro exI [of _ "[s]"]) simp
next
  case (Cons x xs)
  from Cons.prems obtain s1 where
    a: "body x s = Inr s1" and b: "for_each xs body s1 = Inr t"
    by (auto split: sum.splits)
  from Cons.IH [OF b] obtain ss where
    ss: "length ss = length xs + 1" "ss ! 0 = s1" "ss ! length xs = t"
    "\<forall>k < length xs. body (xs ! k) (ss ! k) = Inr (ss ! (k + 1))"
    by blast
  have "\<forall>k < length (x # xs). body ((x # xs) ! k) ((s # ss) ! k) = Inr ((s # ss) ! (k + 1))"
  proof (intro allI impI)
    fix k assume k: "k < length (x # xs)"
    show "body ((x # xs) ! k) ((s # ss) ! k) = Inr ((s # ss) ! (k + 1))"
    proof (cases k)
      case 0
      with a ss(2) show ?thesis by simp
    next
      case (Suc j)
      with k ss(4) show ?thesis by simp
    qed
  qed
  moreover have "length (s # ss) = length (x # xs) + 1" using ss(1) by simp
  moreover have "(s # ss) ! 0 = s" by simp
  moreover have "(s # ss) ! length (x # xs) = t" using ss(3) by simp
  ultimately show ?case by blast
qed

lemma for_each_total:
  assumes step: "\<And>x s. x \<in> set xs \<Longrightarrow> P s \<Longrightarrow> \<exists>s'. body x s = Inr s' \<and> P s'"
    and "P s"
  shows "\<exists>t. for_each xs body s = Inr t"
  using assms
proof (induction xs arbitrary: s)
  case Nil
  then show ?case by simp
next
  case (Cons x xs)
  from Cons.prems(1) [of x s] Cons.prems(2) obtain s1 where
    a: "body x s = Inr s1" and p: "P s1"
    by auto
  have "\<exists>t. for_each xs body s1 = Inr t"
    by (rule Cons.IH) (use Cons.prems(1) p in auto)
  with a show ?case by simp
qed

section \<open>Organ type names: the translation is a bijection on the table\<close>

lemma organTypeNumber_loop_unfold:
  "organTypeNumber_loop name ot =
     (if 0 \<le> ot \<and> nat ot < length organTypeNames
      then (if name \<noteq> organTypeNames ! nat ot then organTypeNumber_loop name (ot + 1) else Inr ot)
      else Inl OutOfRange)"
  by (subst organTypeNumber_loop.simps) (simp add: vector_at_def)

lemma organTypeNumber_loop_5: "organTypeNumber_loop name 5 = Inl OutOfRange"
  by (subst organTypeNumber_loop_unfold) (simp add: organTypeNames_def)

lemma organTypeNumber_loop_4:
  "organTypeNumber_loop name 4 = (if name = ''leaf'' then Inr 4 else Inl OutOfRange)"
  by (subst organTypeNumber_loop_unfold) (simp add: organTypeNames_def organTypeNumber_loop_5)

lemma organTypeNumber_loop_3:
  "organTypeNumber_loop name 3 =
     (if name = ''stem'' then Inr 3 else if name = ''leaf'' then Inr 4 else Inl OutOfRange)"
  by (subst organTypeNumber_loop_unfold) (simp add: organTypeNames_def organTypeNumber_loop_4)

lemma organTypeNumber_loop_2:
  "organTypeNumber_loop name 2 =
     (if name = ''root'' then Inr 2 else if name = ''stem'' then Inr 3
      else if name = ''leaf'' then Inr 4 else Inl OutOfRange)"
  by (subst organTypeNumber_loop_unfold) (simp add: organTypeNames_def organTypeNumber_loop_3)

lemma organTypeNumber_loop_1:
  "organTypeNumber_loop name 1 =
     (if name = ''seed'' then Inr 1 else if name = ''root'' then Inr 2
      else if name = ''stem'' then Inr 3 else if name = ''leaf'' then Inr 4
      else Inl OutOfRange)"
  by (subst organTypeNumber_loop_unfold) (simp add: organTypeNames_def organTypeNumber_loop_2)

lemma organTypeNumber_cases:
  "organTypeNumber name =
     (if name = ''organ'' then Inr 0 else if name = ''seed'' then Inr 1
      else if name = ''root'' then Inr 2 else if name = ''stem'' then Inr 3
      else if name = ''leaf'' then Inr 4 else Inl StdException)"
  unfolding organTypeNumber_def
  by (subst organTypeNumber_loop_unfold) (simp add: organTypeNames_def organTypeNumber_loop_1)

lemma organTypeName_cases:
  "organTypeName ot =
     (if ot = 0 then Inr ''organ'' else if ot = 1 then Inr ''seed''
      else if ot = 2 then Inr ''root'' else if ot = 3 then Inr ''stem''
      else if ot = 4 then Inr ''leaf'' else Inl StdException)"
proof (cases "0 \<le> ot \<and> ot < 5")
  case True
  then have "ot = 0 \<or> ot = 1 \<or> ot = 2 \<or> ot = 3 \<or> ot = 4" by arith
  then show ?thesis
    by (auto simp: organTypeName_def vector_at_def organTypeNames_def)
next
  case False
  then show ?thesis
    by (auto simp: organTypeName_def vector_at_def organTypeNames_def)
qed

text \<open>
  Claim C10.  On the table of five names the two translations are inverse to each other:
  a number from 0 to 4 is mapped to its name and back to itself, each of the five names
  is mapped to its number and back to itself, and every other name and every other number
  makes the respective function throw (the handler turns the \<open>std::out_of_range\<close>
  of \<open>at\<close> into a \<open>std::exception\<close>).
\<close>

theorem organType_translation_bijection:
  "(\<forall>ot. 0 \<le> ot \<and> ot < 5 \<longrightarrow>
      (\<exists>n. organTypeName ot = Inr n \<and> organTypeNumber n = Inr ot))
   \<and> (\<forall>name \<in> set organTypeNames.
      (\<exists>k. organTypeNumber name = Inr k \<and> organTypeName k = Inr name))
   \<and> (\<forall>name. name \<notin> set organTypeNames \<longrightarrow> organTypeNumber name = Inl StdException)
   \<and> (\<forall>ot. \<not> (0 \<le> ot \<and> ot < 5) \<longrightarrow> organTypeName ot = Inl StdException)"
proof (intro conjI allI impI ballI)
  fix ot :: int
  assume "0 \<le> ot \<and> ot < 5"
  then have "ot = 0 \<or> ot = 1 \<or> ot = 2 \<or> ot = 3 \<or> ot = 4" by arith
  then show "\<exists>n. organTypeName ot = Inr n \<and> organTypeNumber n = Inr ot"
    by (auto simp: organTypeName_cases organTypeNumber_cases)
next
  fix name
  assume "name \<in> set organTypeNames"
  then have "name = ''organ'' \<or> name = ''seed'' \<or> name = ''root'' \<or> name = ''stem''
      \<or> name = ''leaf''"
    by (simp add: organTypeNames_def)
  then show "\<exists>k. organTypeNumber name = Inr k \<and> organTypeName k = Inr name"
    by (auto simp: organTypeName_cases organTypeNumber_cases)
next
  fix name
  assume "name \<notin> set organTypeNames"
  then show "organTypeNumber name = Inl StdException"
    by (simp add: organTypeNames_def organTypeNumber_cases)
next
  fix ot :: int
  assume "\<not> (0 \<le> ot \<and> ot < 5)"
  then show "organTypeName ot = Inl StdException"
    by (auto simp: organTypeName_cases)
qed

theorem organType_translation_bijection_witness:
  "organTypeName 2 = Inr ''root'' \<and> organTypeNumber ''root'' = Inr 2
   \<and> organTypeNumber ''stem'' = Inr 3 \<and> organTypeName 3 = Inr ''stem''
   \<and> organTypeNumber ''flower'' = Inl StdException
   \<and> organTypeName 5 = Inl StdException \<and> organTypeName (- 1) = Inl StdException"
proof -
  note b = organType_translation_bijection
  have r1: "\<exists>n. organTypeName 2 = Inr n \<and> organTypeNumber n = Inr 2"
    using b by simp
  have n2: "organTypeName 2 = Inr ''root''"
    by (simp add: organTypeName_def vector_at_def organTypeNames_def)
  have s: "''stem'' \<in> set organTypeNames"
    by (simp add: organTypeNames_def)
  have r2: "\<exists>k. organTypeNumber ''stem'' = Inr k \<and> organTypeName k = Inr ''stem''"
    using b s by blast
  have f: "''flower'' \<notin> set organTypeNames"
    by (simp add: organTypeNames_def)
  have r3: "organTypeNumber ''flower'' = Inl StdException"
    using b f by blast
  have r4: "organTypeName 5 = Inl StdException" "organTypeName (- 1) = Inl StdException"
    using b by simp_all
  from r1 n2 have a: "organTypeNumber ''root'' = Inr 2" by auto
  from r2 have c: "organTypeNumber ''stem'' = Inr 3 \<and> organTypeName 3 = Inr ''stem''"
    by (auto simp: organTypeName_cases split: if_splits)
  from n2 a c r3 r4 show ?thesis by simp
qed

section \<open>The registry: lookup and replacement\<close>

text \<open>
  Claim C7.  For an organ type of the table, a lookup at a sub type without a registered
  prototype throws \<open>std::out_of_range\<close> (caught, reported and thrown again); it never
  returns a pointer.  At a registered pair the stored pointer is returned.
\<close>

theorem getOrganTypeParameter_unregistered_throws:
  assumes "0 \<le> ot" and "ot < numberOfOrganTypes"
    and "int (length (organParam s)) = numberOfOrganTypes"
  shows "((organParam s ! nat ot) subtype = None \<longrightarrow>
            getOrganTypeParameter s ot subtype = Inl OutOfRange)
       \<and> (\<forall>p. (organParam s ! nat ot) subtype = Some p \<longrightarrow>
            getOrganTypeParameter s ot subtype = Inr p)"
  using assms
  by (auto simp: getOrganTypeParameter_def array_subscript_def numberOfOrganTypes_def)

theorem getOrganTypeParameter_unregistered_throws_witness:
  "getOrganTypeParameter registry_example 2 3 = Inl OutOfRange
   \<and> getOrganTypeParameter registry_example 2 1 = Inr 7"
proof -
  have a: "(0::int) \<le> 2" "2 < numberOfOrganTypes"
    "int (length (organParam registry_example)) = numberOfOrganTypes"
    by (simp_all add: numberOfOrganTypes_def registry_example_def)
  have n: "(organParam registry_example ! nat 2) 3 = None"
    by (simp add: registry_example_def)
  have r: "(organParam registry_example ! nat 2) 1 = Some 7"
    by (simp add: registry_example_def)
  from getOrganTypeParameter_unregistered_throws [OF a, of 3] n
  have t: "getOrganTypeParameter registry_example 2 3 = Inl OutOfRange" by blast
  from getOrganTypeParameter_unregistered_throws [OF a, of 1] r
  have u: "getOrganTypeParameter registry_example 2 1 = Inr 7" by blast
  from t u show ?thesis by simp
qed

text \<open>
  Claim C6.  The registry is one map per organ type, so a key holds at most one
  prototype.  A call \<open>setOrganTypeParameter(p)\<close> with a live \<open>p\<close> owned by the
  organism returns; afterwards the lookup at the key of \<open>p\<close> yields \<open>p\<close>, the
  prototype stored there before is no longer on the heap and no other object is released,
  and the lookup at every other key gives what it gave before.
\<close>

theorem setOrganTypeParameter_replaces:
  assumes P: "h p = Some P"
    and owner: "NDEBUG \<or> plant P = this"
    and ot: "0 \<le> organType P" "organType P < numberOfOrganTypes"
    and len: "int (length (organParam s)) = numberOfOrganTypes"
    and live: "\<forall>q. (organParam s ! nat (organType P)) (subType P) = Some q
                 \<longrightarrow> q = nullptr \<or> q \<in> dom h"
  shows "\<exists>s' h'. setOrganTypeParameter NDEBUG this p (s, h) = Inr (s', h')
     \<and> getOrganTypeParameter s' (organType P) (subType P) = Inr p
     \<and> (\<forall>q. (organParam s ! nat (organType P)) (subType P) = Some q \<and> q \<noteq> nullptr
            \<longrightarrow> q \<notin> dom h')
     \<and> (\<forall>q. (organParam s ! nat (organType P)) (subType P) \<noteq> Some q \<longrightarrow> h' q = h q)
     \<and> (\<forall>k st. (k, st) \<noteq> (organType P, subType P)
            \<longrightarrow> getOrganTypeParameter s' k st = getOrganTypeParameter s k st)
     \<and> length (organParam s') = length (organParam s)"
proof -
  let ?ot = "organType P" and ?st = "subType P"
  let ?m = "organParam s ! nat ?ot"
  have inr: "nat ?ot < length (organParam s)"
    using ot len by (simp add: numberOfOrganTypes_def)
  have sub: "array_subscript (organParam s) ?ot = Inr ?m"
    using ot inr by (simp add: array_subscript_def)
  obtain m1 old where ms: "map_subscript ?m ?st = (m1, old)"
    by (cases "map_subscript ?m ?st")
  have old: "old = (case ?m ?st of None \<Rightarrow> nullptr | Some q \<Rightarrow> q)"
    and m1: "m1(?st \<mapsto> p) = ?m(?st \<mapsto> p)"
    using ms by (auto simp: map_subscript_def split: option.splits)
  have ok: "old = nullptr \<or> old \<in> dom h"
    using live old by (auto split: option.splits)
  define h' where "h' = (if old = nullptr then h else h(old := None))"
  have del: "delete_otp old h = Inr h'"
    using ok by (auto simp: delete_otp_def h'_def)
  define s' where "s' = s\<lparr>organParam := (organParam s)[nat ?ot := ?m(?st \<mapsto> p)]\<rparr>"
  have run: "setOrganTypeParameter NDEBUG this p (s, h) = Inr (s', h')"
    using P owner sub ms del m1
    by (auto simp: setOrganTypeParameter_def Let_def s'_def)
  have stored: "getOrganTypeParameter s' ?ot ?st = Inr p"
    using ot inr by (simp add: getOrganTypeParameter_def array_subscript_def s'_def)
  have released: "\<forall>q. ?m ?st = Some q \<and> q \<noteq> nullptr \<longrightarrow> q \<notin> dom h'"
    using old by (auto simp: h'_def)
  have kept: "\<forall>q. ?m ?st \<noteq> Some q \<longrightarrow> h' q = h q"
  proof (intro allI impI)
    fix q assume q: "?m ?st \<noteq> Some q"
    show "h' q = h q"
    proof (cases "old = nullptr")
      case True
      then show ?thesis by (simp add: h'_def)
    next
      case False
      then have "?m ?st = Some old"
        using old by (auto split: option.splits)
      with q have "q \<noteq> old" by auto
      then show ?thesis by (simp add: h'_def)
    qed
  qed
  have others: "\<forall>k st. (k, st) \<noteq> (?ot, ?st)
      \<longrightarrow> getOrganTypeParameter s' k st = getOrganTypeParameter s k st"
  proof (intro allI impI)
    fix k st assume ne: "(k, st) \<noteq> (?ot, ?st)"
    show "getOrganTypeParameter s' k st = getOrganTypeParameter s k st"
    proof (cases "0 \<le> k \<and> nat k < length (organParam s)")
      case False
      then show ?thesis
        by (auto simp: getOrganTypeParameter_def array_subscript_def s'_def)
    next
      case True
      show ?thesis
      proof (cases "k = ?ot")
        case False
        with True ot have "nat k \<noteq> nat ?ot" by auto
        with True show ?thesis
          by (simp add: getOrganTypeParameter_def array_subscript_def s'_def)
      next
        case k: True
        with ne have "st \<noteq> ?st" by simp
        with True k show ?thesis
          by (simp add: getOrganTypeParameter_def array_subscript_def s'_def)
      qed
    qed
  qed
  have "length (organParam s') = length (organParam s)"
    by (simp add: s'_def)
  with run stored released kept others show ?thesis by blast
qed

theorem setOrganTypeParameter_replaces_witness:
  "\<exists>s' h'. setOrganTypeParameter False 100 8 (registry_example, heap_example) = Inr (s', h')
     \<and> getOrganTypeParameter s' 2 1 = Inr 8
     \<and> 7 \<notin> dom h' \<and> h' 8 = heap_example 8
     \<and> getOrganTypeParameter s' 2 2 = getOrganTypeParameter registry_example 2 2"
proof -
  let ?P = "\<lparr>plant = 100, organType = 2, subType = 1\<rparr>"
  have P: "heap_example 8 = Some ?P"
    by (simp add: heap_example_def)
  have owner: "False \<or> plant ?P = 100" by simp
  have ot: "0 \<le> organType ?P" "organType ?P < numberOfOrganTypes"
    by (simp_all add: numberOfOrganTypes_def)
  have len: "int (length (organParam registry_example)) = numberOfOrganTypes"
    by (simp add: registry_example_def numberOfOrganTypes_def)
  have live: "\<forall>q. (organParam registry_example ! nat (organType ?P)) (subType ?P) = Some q
      \<longrightarrow> q = nullptr \<or> q \<in> dom heap_example"
    by (simp add: registry_example_def heap_example_def)
  have old: "(organParam registry_example ! nat (organType ?P)) (subType ?P) = Some 7"
    by (simp add: registry_example_def)
  from setOrganTypeParameter_replaces [OF P owner ot len live]
  obtain s' h' where
    r: "setOrganTypeParameter False 100 8 (registry_example, heap_example) = Inr (s', h')"
    and g: "getOrganTypeParameter s' (organType ?P) (subType ?P) = Inr 8"
    and d: "\<forall>q. (organParam registry_example ! nat (organType ?P)) (subType ?P) = Some q
             \<and> q \<noteq> nullptr \<longrightarrow> q \<notin> dom h'"
    and k: "\<forall>q. (organParam registry_example ! nat (organType ?P)) (subType ?P) \<noteq> Some q
             \<longrightarrow> h' q = heap_example q"
    and o: "\<forall>k st. (k, st) \<noteq> (organType ?P, subType ?P)
             \<longrightarrow> getOrganTypeParameter s' k st = getOrganTypeParameter registry_example k st"
    by blast
  from d old have "7 \<notin> dom h'" by (simp add: nullptr_def)
  moreover from k old have "h' 8 = heap_example 8" by simp
  moreover from o have "getOrganTypeParameter s' 2 2 = getOrganTypeParameter registry_example 2 2"
    by simp
  moreover from g have "getOrganTypeParameter s' 2 1 = Inr 8" by simp
  ultimately show ?thesis using r by blast
qed

section \<open>Aggregation over the flattened organ list\<close>

lemma getOrgans_traversal:
  "getOrgans ot s = (if getNumberOfOrgans s < 0 then Inl LengthError else Inr (traversal ot s))"
proof -
  have "foldl (\<lambda>organs r. organs @ Organ_getOrgans ot r) acc rs
          = acc @ concat (map (Organ_getOrgans ot) rs)" for acc rs
    by (induction rs arbitrary: acc) simp_all
  from this [of "[]" "baseOrgans s"] show ?thesis by (simp add: getOrgans_def traversal_def)
qed

lemma getOrgans_ok: "0 \<le> getNumberOfOrgans s \<Longrightarrow> getOrgans ot s = Inr (traversal ot s)"
  by (simp add: getOrgans_traversal)

lemma getParameter_loop_map:
  "i \<le> length organs \<Longrightarrow> length p = length organs \<Longrightarrow>
   getParameter_loop name organs i p
     = take i p @ map (\<lambda>r. Organ_getParameter r name) (drop i organs)"
proof (induction name organs i p rule: getParameter_loop.induct)
  case (1 name organs i p)
  show ?case
  proof (cases "i < length organs")
    case True
    let ?p = "p[i := Organ_getParameter (organs ! i) name]"
    have "getParameter_loop name organs i p = getParameter_loop name organs (i + 1) ?p"
      using True by (subst getParameter_loop.simps) simp
    also have "\<dots> = take (i + 1) ?p @ map (\<lambda>r. Organ_getParameter r name) (drop (i + 1) organs)"
      using "1.IH" [OF True] True "1.prems" by simp
    also have "take (i + 1) ?p = take i p @ [Organ_getParameter (organs ! i) name]"
      using True "1.prems" by (simp add: take_Suc_conv_app_nth)
    also have "(take i p @ [Organ_getParameter (organs ! i) name])
         @ map (\<lambda>r. Organ_getParameter r name) (drop (i + 1) organs)
       = take i p @ map (\<lambda>r. Organ_getParameter r name) (drop i organs)"
      using True by (simp add: Cons_nth_drop_Suc [symmetric])
    finally show ?thesis .
  next
    case False
    with "1.prems" show ?thesis
      by (subst getParameter_loop.simps) simp
  qed
qed

lemma getParameter_all:
  "getParameter name ot [] s
     = (if getNumberOfOrgans s < 0 then Inl LengthError
        else Inr (map (\<lambda>r. Organ_getParameter r name) (traversal ot s)))"
  by (simp add: getParameter_def Let_def getOrgans_traversal getParameter_loop_map)

text \<open>
  Claim C8.  For every organism and every organ type filter, \<open>getSummed(name, ot)\<close>
  is the sum, taken from the left starting at 0, of the vector \<open>getParameter(name, ot)\<close>
  returns.  When the organ count is not negative that vector holds the parameter of every
  organ of the flattened list \<open>getOrgans(ot)\<close> in the order of the list, so both are
  reductions over the same list in the same order; otherwise \<open>getOrgans(ot)\<close> throws
  and so do both.  This holds for every parameter name, \<open>length\<close> among them.
\<close>

theorem getSummed_is_sum_of_getParameter:
  "getSummed name ot s
     = (case getParameter name ot [] s of Inl e \<Rightarrow> Inl e | Inr v \<Rightarrow> Inr (accumulate v 0))
   \<and> (0 \<le> getNumberOfOrgans s \<longrightarrow>
        getParameter name ot [] s
          = Inr (map (\<lambda>r. Organ_getParameter r name) (traversal ot s))
        \<and> getSummed name ot s
          = Inr (foldl (\<lambda>acc x. acc + x) 0
                  (map (\<lambda>r. Organ_getParameter r name) (traversal ot s))))
   \<and> (getNumberOfOrgans s < 0 \<longrightarrow>
        getParameter name ot [] s = Inl LengthError \<and> getSummed name ot s = Inl LengthError)"
  by (simp add: getSummed_def getParameter_all accumulate_def)

section \<open>The example organism evaluated\<close>

lemma organ_A_fields:
  "nodes organ_A = [(0, 0, 0), (0, 0, - 1), (0, 0, - 2), (0, 0, - 3)]"
  "nodeIds organ_A = [0, 1, 2, 6]" "nodeCTs organ_A = [0, 1, 2, 5]"
  "getOldNumberOfNodes organ_A = 3" "hasMoved organ_A = 0"
  by (simp_all add: organ_A_def)

lemma organ_B_fields:
  "nodes organ_B = [(0, 0, - 1), (1, 0, - 1), (2, 0, - 1), (3, 0, - 1)]"
  "nodeIds organ_B = [1, 4, 7, 8]" "nodeCTs organ_B = [1, 2, 5, 6]"
  "getOldNumberOfNodes organ_B = 2" "hasMoved organ_B = 0"
  by (simp_all add: organ_B_def)

lemma organ_C_fields:
  "nodes organ_C = [(0, 0, - 2), (0, 1, - 2)]"
  "nodeIds organ_C = [2, 5]" "nodeCTs organ_C = [2, 3]"
  "getOldNumberOfNodes organ_C = 2" "hasMoved organ_C = 1"
  by (simp_all add: organ_C_def)

lemma organ_D_fields:
  "nodes organ_D = [(5, 5, 0)]"
  "nodeIds organ_D = [3]" "nodeCTs organ_D = [0]"
  "getOldNumberOfNodes organ_D = 1" "hasMoved organ_D = 0"
  by (simp_all add: organ_D_def)

lemma plant_example_fields:
  "baseOrgans plant_example = [organ_A, organ_D]"
  "getNumberOfNodes plant_example = 9" "oldNumberOfNodes plant_example = 6"
  "getNumberOfNewNodes plant_example = 3" "getNumberOfOrgans plant_example = 4"
  by (simp_all add: plant_example_def getNumberOfNodes_def getNumberOfNewNodes_def
      getNumberOfOrgans_def)

lemma Organ_getOrgans_example:
  "Organ_getOrgans (- 1) organ_B = [organ_B]"
  "Organ_getOrgans (- 1) organ_C = [organ_C]"
  "Organ_getOrgans (- 1) organ_D = []"
  by (simp_all add: organ_B_def organ_C_def organ_D_def)

lemma plant_example_organs:
  "traversal (- 1) plant_example = [organ_A, organ_B, organ_C]"
proof -
  have "Organ_getOrgans (- 1) organ_A
      = organ_A # concat (map (Organ_getOrgans (- 1)) [organ_B, organ_C])"
    by (simp add: organ_A_def)
  then show ?thesis
    by (simp add: traversal_def plant_example_fields Organ_getOrgans_example)
qed

lemmas example_fields =
  organ_A_fields organ_B_fields organ_C_fields organ_D_fields plant_example_fields
  plant_example_organs

lemma organ_E_fields:
  "nodes organ_E = [(0, 0, 0), (0, 0, - 1), (0, 0, - 2)]"
  "nodeIds organ_E = [0, 1, 2]" "nodeCTs organ_E = [0, 1, 2]"
  "getOldNumberOfNodes organ_E = - 2" "hasMoved organ_E = 0"
  by (simp_all add: organ_E_def)



lemma example_segment_indices:
  "newSegmentIndices organ_A = [2]" "newSegmentIndices organ_B = [1, 2]"
  "newSegmentIndices organ_C = []" "newSegmentIndices organ_E = [1]"
  "spec_newSegmentIndices organ_E = [1]"
  by (simp_all add: newSegmentIndices_def spec_newSegmentIndices_def example_fields
      organ_E_fields upt_rec)

lemma plant_example_new:
  "newNodeIds plant_example = [6, 7, 8]"
  "newNodeStores plant_example = [(0, (0, 0, - 3)), (1, (2, 0, - 1)), (2, (3, 0, - 1))]"
  by (simp_all add: newNodeIds_def newNodeStores_def example_fields upt_rec)




theorem getSummed_is_sum_of_getParameter_witness:
  "getParameter ''length'' (- 1) [] plant_example = Inr [3, 3, 1]
   \<and> getSummed ''length'' (- 1) plant_example = Inr 7"
proof -
  have count: "0 \<le> getNumberOfOrgans plant_example"
    by (simp add: example_fields)
  have par: "map (\<lambda>r. Organ_getParameter r ''length'') (traversal (- 1) plant_example)
      = [3, 3, 1]"
    by (simp add: example_fields organ_A_def organ_B_def organ_C_def)
  from getSummed_is_sum_of_getParameter [of "''length''" "- 1" plant_example] count
  have "getParameter ''length'' (- 1) [] plant_example
          = Inr (map (\<lambda>r. Organ_getParameter r ''length'') (traversal (- 1) plant_example))
        \<and> getSummed ''length'' (- 1) plant_example
          = Inr (foldl (\<lambda>acc x. acc + x) 0
                  (map (\<lambda>r. Organ_getParameter r ''length'') (traversal (- 1) plant_example)))"
    by blast
  then show ?thesis by (simp add: par)
qed

section \<open>The simulation step\<close>

lemma simulate_organ_frame:
  assumes frame: "keeps_step_record osim"
    and run: "simulate_organ osim dt verbose i u = Inr u'"
  shows "simtime u' = simtime u \<and> oldNumberOfNodes u' = oldNumberOfNodes u
     \<and> oldNumberOfOrgans u' = oldNumberOfOrgans u
     \<and> length (baseOrgans u') = length (baseOrgans u)"
proof -
  from run obtain r' s' where
    a: "osim dt verbose (baseOrgans u ! i) u = Inr (r', s')"
    and b: "u' = s'\<lparr>baseOrgans := (baseOrgans s')[i := r']\<rparr>"
    by (auto simp: simulate_organ_def split: if_splits sum.splits prod.splits)
  from frame a have "simtime s' = simtime u \<and> oldNumberOfNodes s' = oldNumberOfNodes u
     \<and> oldNumberOfOrgans s' = oldNumberOfOrgans u
     \<and> length (baseOrgans s') = length (baseOrgans u)"
    unfolding keeps_step_record_def by blast
  with b show ?thesis by simp
qed

text \<open>
  Claim C4.  Provided no organ touches the simulated time, the recorded counts or the
  length of the base organ vector, a call \<open>simulate(dt, verbose)\<close> that returns went
  through the states \<open>ss\<close>, one more than there are base organs.  The first is the
  organism it found with its node count and its organ count stored in
  \<open>oldNumberOfNodes\<close> and \<open>oldNumberOfOrgans\<close>.  State \<open>i + 1\<close> is what the call
  of \<open>simulate(dt, verbose)\<close> on the base organ at place \<open>i\<close> of state \<open>i\<close> leaves,
  with the grown organ in its place: the organs are stepped in the stored order, each on the
  organism as the organs before it left it, with the counts already recorded and the time
  not yet advanced.  The result is the last state with the simulated time at its old value
  plus \<open>dt\<close>.  The call returns whenever every organ's step returns.
\<close>

theorem simulate_records_then_steps_then_advances:
  fixes s :: "('o, 'd :: plus, 'g) Organism"
  assumes frame: "keeps_step_record osim"
  shows "(\<forall>t. simulate osim dt verbose s = Inr t \<longrightarrow>
      (\<exists>ss. length ss = length (baseOrgans s) + 1
         \<and> ss ! 0 = s\<lparr>oldNumberOfNodes := getNumberOfNodes s,
                       oldNumberOfOrgans := getNumberOfOrgans s\<rparr>
         \<and> (\<forall>i < length (baseOrgans s). \<exists>r' s'.
               osim dt verbose (baseOrgans (ss ! i) ! i) (ss ! i) = Inr (r', s')
               \<and> ss ! (i + 1) = s'\<lparr>baseOrgans := (baseOrgans s')[i := r']\<rparr>
               \<and> oldNumberOfNodes (ss ! i) = getNumberOfNodes s
               \<and> oldNumberOfOrgans (ss ! i) = getNumberOfOrgans s
               \<and> simtime (ss ! i) = simtime s)
         \<and> t = (ss ! length (baseOrgans s))\<lparr>simtime := simtime s + dt\<rparr>)
      \<and> oldNumberOfNodes t = getNumberOfNodes s \<and> oldNumberOfOrgans t = getNumberOfOrgans s
      \<and> simtime t = simtime s + dt
      \<and> length (baseOrgans t) = length (baseOrgans s))
   \<and> ((\<forall>r u. \<exists>y. osim dt verbose r u = Inr y) \<longrightarrow> (\<exists>t. simulate osim dt verbose s = Inr t))"
proof (intro conjI allI impI)
  define n where "n = length (baseOrgans s)"
  define s0 where "s0 = s\<lparr>oldNumberOfNodes := getNumberOfNodes s,
                          oldNumberOfOrgans := getNumberOfOrgans s\<rparr>"
  define body where "body = simulate_organ osim dt verbose"
  define keeps where "keeps = (\<lambda>u :: ('o, 'd, 'g) Organism. simtime u = simtime s
      \<and> oldNumberOfNodes u = getNumberOfNodes s \<and> oldNumberOfOrgans u = getNumberOfOrgans s
      \<and> length (baseOrgans u) = n)"
  have unfold: "simulate osim dt verbose s =
      (case for_each [0..<n] body s0 of
         Inl e \<Rightarrow> Inl e
       | Inr s3 \<Rightarrow> Inr (s3\<lparr>simtime := simtime s3 + dt\<rparr>))"
    by (simp add: simulate_def Let_def getNumberOfOrgans_def getNumberOfNodes_def
        for_loop_for_each n_def s0_def body_def)
  have k0: "keeps s0" by (simp add: keeps_def s0_def n_def)
  have kstep: "keeps u'" if "keeps u" "body i u = Inr u'" for i u u'
    using simulate_organ_frame [OF frame that(2) [unfolded body_def]] that(1)
    by (simp add: keeps_def)
  {
    fix t assume run: "simulate osim dt verbose s = Inr t"
    from run unfold obtain s3 where
      loop: "for_each [0..<n] body s0 = Inr s3"
      and t: "t = s3\<lparr>simtime := simtime s3 + dt\<rparr>"
      by (auto split: sum.splits)
    from for_each_chain [OF loop] obtain ss where
      len: "length ss = n + 1" and first: "ss ! 0 = s0" and final: "ss ! n = s3"
      and chain: "\<forall>k < n. body k (ss ! k) = Inr (ss ! (k + 1))"
      by auto
    have inv: "k \<le> n \<Longrightarrow> keeps (ss ! k)" for k
    proof (induction k)
      case 0
      with k0 first show ?case by simp
    next
      case (Suc k)
      then have "keeps (ss ! k)" "body k (ss ! k) = Inr (ss ! (k + 1))"
        using chain by simp_all
      then show ?case using kstep by auto
    qed
    have calls: "\<forall>i < n. \<exists>r' s'.
               osim dt verbose (baseOrgans (ss ! i) ! i) (ss ! i) = Inr (r', s')
               \<and> ss ! (i + 1) = s'\<lparr>baseOrgans := (baseOrgans s')[i := r']\<rparr>
               \<and> oldNumberOfNodes (ss ! i) = getNumberOfNodes s
               \<and> oldNumberOfOrgans (ss ! i) = getNumberOfOrgans s
               \<and> simtime (ss ! i) = simtime s"
    proof (intro allI impI)
      fix i assume i: "i < n"
      with chain have "simulate_organ osim dt verbose i (ss ! i) = Inr (ss ! (i + 1))"
        by (simp add: body_def)
      then obtain r' s' where
        "osim dt verbose (baseOrgans (ss ! i) ! i) (ss ! i) = Inr (r', s')"
        "ss ! (i + 1) = s'\<lparr>baseOrgans := (baseOrgans s')[i := r']\<rparr>"
        by (auto simp: simulate_organ_def split: if_splits sum.splits prod.splits)
      moreover from inv [of i] i have "keeps (ss ! i)" by simp
      ultimately show "\<exists>r' s'.
               osim dt verbose (baseOrgans (ss ! i) ! i) (ss ! i) = Inr (r', s')
               \<and> ss ! (i + 1) = s'\<lparr>baseOrgans := (baseOrgans s')[i := r']\<rparr>
               \<and> oldNumberOfNodes (ss ! i) = getNumberOfNodes s
               \<and> oldNumberOfOrgans (ss ! i) = getNumberOfOrgans s
               \<and> simtime (ss ! i) = simtime s"
        by (auto simp: keeps_def)
    qed
    from inv [of n] final have k3: "keeps s3" by simp
    from t k3 final have t': "t = (ss ! n)\<lparr>simtime := simtime s + dt\<rparr>"
      by (simp add: keeps_def)
    from len first calls t'
    show "\<exists>ss. length ss = length (baseOrgans s) + 1
         \<and> ss ! 0 = s\<lparr>oldNumberOfNodes := getNumberOfNodes s,
                       oldNumberOfOrgans := getNumberOfOrgans s\<rparr>
         \<and> (\<forall>i < length (baseOrgans s). \<exists>r' s'.
               osim dt verbose (baseOrgans (ss ! i) ! i) (ss ! i) = Inr (r', s')
               \<and> ss ! (i + 1) = s'\<lparr>baseOrgans := (baseOrgans s')[i := r']\<rparr>
               \<and> oldNumberOfNodes (ss ! i) = getNumberOfNodes s
               \<and> oldNumberOfOrgans (ss ! i) = getNumberOfOrgans s
               \<and> simtime (ss ! i) = simtime s)
         \<and> t = (ss ! length (baseOrgans s))\<lparr>simtime := simtime s + dt\<rparr>"
      unfolding n_def [symmetric] s0_def [symmetric] by blast
    from t k3 show "oldNumberOfNodes t = getNumberOfNodes s"
      and "oldNumberOfOrgans t = getNumberOfOrgans s"
      and "simtime t = simtime s + dt"
      and "length (baseOrgans t) = length (baseOrgans s)"
      by (simp_all add: keeps_def n_def)
  }
  assume tot: "\<forall>r u. \<exists>y. osim dt verbose r u = Inr y"
  have "\<exists>t. for_each [0..<n] body s0 = Inr t"
  proof (rule for_each_total [where P = keeps])
    show "keeps s0" by (rule k0)
  next
    fix i u assume i: "i \<in> set [0..<n]" and u: "keeps u"
    from tot obtain r' s' where "osim dt verbose (baseOrgans u ! i) u = Inr (r', s')"
      by (metis surj_pair)
    with i u have b: "body i u = Inr (s'\<lparr>baseOrgans := (baseOrgans s')[i := r']\<rparr>)"
      by (simp add: body_def simulate_organ_def keeps_def)
    with kstep [OF u b] show "\<exists>s'. body i u = Inr s' \<and> keeps s'" by blast
  qed
  with unfold show "\<exists>t. simulate osim dt verbose s = Inr t" by auto
qed

text \<open>
  On the example organism with the base organs 1 and 4, where a step adds one to the organ
  and to the node counter and logs the base organs it finds: the result holds the recorded
  counts 5 and 2, the time 13, both organs grown, the node counter 7, and the log shows
  that the second organ was stepped after the first had grown.
\<close>

theorem simulate_records_then_steps_then_advances_witness:
  "keeps_step_record step_example
   \<and> (\<exists>t. simulate step_example 3 False growing_example = Inr t
        \<and> oldNumberOfNodes t = 5 \<and> oldNumberOfOrgans t = 2 \<and> simtime t = 13
        \<and> baseOrgans t = [2, 5] \<and> nodeId t = 7 \<and> gen t = [[1, 4], [2, 4]])"
proof -
  have frame: "keeps_step_record step_example"
    by (simp add: keeps_step_record_def step_example_def)
  note th = simulate_records_then_steps_then_advances [OF frame, of 3 False growing_example]
  have total: "\<forall>r u. \<exists>y. step_example 3 False r u = Inr y"
    by (simp add: step_example_def)
  from th total obtain t where run: "simulate step_example 3 False growing_example = Inr t"
    by blast
  from th run obtain ss where
    first: "ss ! 0 = growing_example\<lparr>oldNumberOfNodes := getNumberOfNodes growing_example,
               oldNumberOfOrgans := getNumberOfOrgans growing_example\<rparr>"
    and calls: "\<forall>i < length (baseOrgans growing_example). \<exists>r' s'.
               step_example 3 False (baseOrgans (ss ! i) ! i) (ss ! i) = Inr (r', s')
               \<and> ss ! (i + 1) = s'\<lparr>baseOrgans := (baseOrgans s')[i := r']\<rparr>
               \<and> oldNumberOfNodes (ss ! i) = getNumberOfNodes growing_example
               \<and> oldNumberOfOrgans (ss ! i) = getNumberOfOrgans growing_example
               \<and> simtime (ss ! i) = simtime growing_example"
    and last: "t = (ss ! length (baseOrgans growing_example))
                 \<lparr>simtime := simtime growing_example + 3\<rparr>"
    by blast
  have n: "length (baseOrgans growing_example) = 2" by (simp add: growing_example_def)
  have s0: "ss ! 0 = \<lparr>baseOrgans = [1, 4], organParam = replicate 5 Map.empty, simtime = 10,
      organId = 2, nodeId = 5, oldNumberOfNodes = 5, oldNumberOfOrgans = 2, gen = []\<rparr>"
    using first by (simp add: growing_example_def getNumberOfNodes_def getNumberOfOrgans_def)
  from calls [rule_format, of 0] n have "\<exists>r' s'.
               step_example 3 False (baseOrgans (ss ! 0) ! 0) (ss ! 0) = Inr (r', s')
               \<and> ss ! (0 + 1) = s'\<lparr>baseOrgans := (baseOrgans s')[0 := r']\<rparr>"
    by auto
  then have s1: "ss ! 1 = \<lparr>baseOrgans = [2, 4], organParam = replicate 5 Map.empty, simtime = 10,
      organId = 2, nodeId = 6, oldNumberOfNodes = 5, oldNumberOfOrgans = 2, gen = [[1, 4]]\<rparr>"
    unfolding s0 by (auto simp: step_example_def)
  from calls [rule_format, of 1] n have "\<exists>r' s'.
               step_example 3 False (baseOrgans (ss ! 1) ! 1) (ss ! 1) = Inr (r', s')
               \<and> ss ! (1 + 1) = s'\<lparr>baseOrgans := (baseOrgans s')[1 := r']\<rparr>"
    by auto
  then have s2: "ss ! 2 = \<lparr>baseOrgans = [2, 5], organParam = replicate 5 Map.empty, simtime = 10,
      organId = 2, nodeId = 7, oldNumberOfNodes = 5, oldNumberOfOrgans = 2,
      gen = [[1, 4], [2, 4]]\<rparr>"
    unfolding s1 by (auto simp: step_example_def numeral_2_eq_2)
  from last [unfolded n s2] have "oldNumberOfNodes t = 5 \<and> oldNumberOfOrgans t = 2 \<and> simtime t = 13
        \<and> baseOrgans t = [2, 5] \<and> nodeId t = 7 \<and> gen t = [[1, 4], [2, 4]]"
    by (simp add: growing_example_def)
  with frame run show ?thesis by blast
qed

section \<open>The dense node vector\<close>

lemma copy_node_store:
  assumes "i < length (nodes r)" and "length (nodeIds r) = length (nodes r)"
  shows "copy_node r (int i) off nv = store_pair (nodeIds r ! i - off, nodes r ! i) nv"
  using assms
  by (simp add: copy_node_def Organ_getNodeId_def Organ_getNode_def vector_at_def store_pair_def)

lemma copy_nodes_stores:
  assumes "length (nodeIds r) = length (nodes r)"
  shows "for_loop lo (Organ_getNumberOfNodes r) (\<lambda>i. copy_node r (int i) off) nv
     = for_each (map (\<lambda>i. (nodeIds r ! i - off, nodes r ! i)) [lo..<length (nodes r)])
         store_pair nv"
proof -
  have "for_each [lo..<length (nodes r)] (\<lambda>i. copy_node r (int i) off) nv
      = for_each [lo..<length (nodes r)]
          (\<lambda>i. store_pair (nodeIds r ! i - off, nodes r ! i)) nv"
    by (rule for_each_cong) (simp add: copy_node_store assms)
  then show ?thesis
    by (simp add: for_loop_for_each Organ_getNumberOfNodes_def for_each_map)
qed

lemma Organ_getOrgans_nodes:
  "r \<in> set (Organ_getOrgans ot q) \<Longrightarrow> 1 < length (nodes r)"
proof (induction ot q rule: Organ_getOrgans.induct)
  case (1 ot t ns ids cts onon mv par cs)
  from "1.prems" consider
    (self) "r = Organ t ns ids cts onon mv par cs" "1 < length ns"
    | (child) c where "c \<in> set cs" "r \<in> set (Organ_getOrgans ot c)"
    by (auto split: if_splits)
  then show ?case
  proof cases
    case self
    then show ?thesis by simp
  next
    case child
    then show ?thesis using "1.IH" by blast
  qed
qed

lemma traversal_nodes: "r \<in> set (traversal ot s) \<Longrightarrow> 1 < length (nodes r)"
  by (auto simp: traversal_def dest: Organ_getOrgans_nodes)

text \<open>
  Claim C5.  Take an organism whose node and organ counts are not negative and in which
  every organ
  that \<open>getNodes\<close> reads (the base organs and the organs of the traversal) has as many
  node ids as nodes, all of them below the node count, every base organ has its node 0, and
  equal node ids stand for equal positions.  Then \<open>getNodes()\<close> returns a vector as
  long as the node count; for every organ of the traversal and every local index \<open>i\<close>
  the slot \<open>getNodeId(i)\<close> holds \<open>getNode(i)\<close>; and the slot of node 0 of every
  base organ holds that node, whether or not the organ is part of the traversal.
\<close>

theorem getNodes_dense:
  assumes size: "0 \<le> getNumberOfNodes s"
    and count: "0 \<le> getNumberOfOrgans s"
    and wf: "\<forall>r \<in> set (baseOrgans s) \<union> set (traversal (- 1) s).
               length (nodeIds r) = length (nodes r)
               \<and> (\<forall>k \<in> set (nodeIds r). 0 \<le> k \<and> k < getNumberOfNodes s)"
    and base: "\<forall>r \<in> set (baseOrgans s). nodes r \<noteq> []"
    and agree: "\<forall>r \<in> set (baseOrgans s) \<union> set (traversal (- 1) s).
                \<forall>q \<in> set (baseOrgans s) \<union> set (traversal (- 1) s).
                \<forall>i < length (nodes r). \<forall>j < length (nodes q).
                   nodeIds r ! i = nodeIds q ! j \<longrightarrow> nodes r ! i = nodes q ! j"
  shows "\<exists>nv. getNodes dflt s = Inr nv
     \<and> length nv = nat (getNumberOfNodes s)
     \<and> (\<forall>r \<in> set (traversal (- 1) s). \<forall>i < length (nodes r).
           nv ! nat (nodeIds r ! i) = nodes r ! i)
     \<and> (\<forall>r \<in> set (baseOrgans s). nv ! nat (nodeIds r ! 0) = nodes r ! 0)"
proof -
  let ?N = "getNumberOfNodes s"
  let ?organs = "traversal (- 1) s"
  let ?R = "set (baseOrgans s) \<union> set ?organs"
  let ?st = "\<lambda>r i. (nodeIds r ! i, nodes r ! i)"
  let ?wb = "map (\<lambda>r. ?st r 0) (baseOrgans s)"
  let ?wo = "concat (map (\<lambda>r. map (?st r) [0..<length (nodes r)]) ?organs)"
  define W where "W = ?wb @ ?wo"
  define nv0 where "nv0 = replicate (nat ?N) dflt"
  have b: "for_each (baseOrgans s) (\<lambda>r. copy_node r 0 0) xs = for_each ?wb store_pair xs" for xs
  proof -
    have "copy_node r 0 0 ys = store_pair (?st r 0) ys" if "r \<in> set (baseOrgans s)" for r ys
      using copy_node_store [of 0 r 0 ys] that wf base by simp
    then have "for_each (baseOrgans s) (\<lambda>r. copy_node r 0 0) xs
        = for_each (baseOrgans s) (\<lambda>r. store_pair (?st r 0)) xs"
      by (intro for_each_cong)
    then show ?thesis by (simp add: for_each_map)
  qed
  have o: "for_each ?organs
             (\<lambda>r. for_loop 0 (Organ_getNumberOfNodes r) (\<lambda>i. copy_node r (int i) 0)) xs
         = for_each ?wo store_pair xs" for xs
  proof -
    have "for_each ?organs
             (\<lambda>r. for_loop 0 (Organ_getNumberOfNodes r) (\<lambda>i. copy_node r (int i) 0)) xs
        = for_each ?organs
             (\<lambda>r. for_each (map (?st r) [0..<length (nodes r)]) store_pair) xs"
      by (rule for_each_cong) (use wf in \<open>simp add: copy_nodes_stores\<close>)
    then show ?thesis
      by (simp add: for_each_map for_each_concat [symmetric])
  qed
  have run: "getNodes dflt s = for_each W store_pair nv0"
    using size unfolding W_def nv0_def
    by (simp add: getNodes_def getOrgans_ok [OF count] new_vector_def b o for_each_append
        cong: sum.case_cong)
  have mem: "\<exists>r \<in> ?R. \<exists>i < length (nodes r). kv = (nodeIds r ! i, nodes r ! i)"
    if "kv \<in> set W" for kv
  proof -
    from that consider (b) r where "r \<in> set (baseOrgans s)" "kv = (nodeIds r ! 0, nodes r ! 0)"
      | (o) r i where "r \<in> set ?organs" "i < length (nodes r)"
          "kv = (nodeIds r ! i, nodes r ! i)"
      unfolding W_def by auto
    then show ?thesis
    proof cases
      case b
      with base have "0 < length (nodes r)" by simp
      with b show ?thesis by blast
    next
      case o
      then show ?thesis by blast
    qed
  qed
  have len0: "length nv0 = nat ?N" by (simp add: nv0_def)
  have inr: "\<forall>kv \<in> set W. 0 \<le> fst kv \<and> nat (fst kv) < length nv0"
  proof
    fix kv assume "kv \<in> set W"
    from mem [OF this] obtain r i where
      r: "r \<in> ?R" and i: "i < length (nodes r)" and kv: "kv = (nodeIds r ! i, nodes r ! i)"
      by blast
    from wf r i have "nodeIds r ! i \<in> set (nodeIds r)" by simp
    with wf r have "0 \<le> nodeIds r ! i \<and> nodeIds r ! i < ?N" by blast
    with kv len0 show "0 \<le> fst kv \<and> nat (fst kv) < length nv0" by auto
  qed
  from store_all_result [OF inr] obtain nv where
    res: "for_each W store_pair nv0 = Inr nv" and len: "length nv = length nv0"
    and slot: "\<forall>j < length nv0. (\<exists>v. (int j, v) \<in> set W \<and> nv ! j = v)
            \<or> (int j \<notin> fst ` set W \<and> nv ! j = nv0 ! j)"
    by blast
  have holds: "nv ! nat (nodeIds r ! i) = nodes r ! i"
    if w: "(nodeIds r ! i, nodes r ! i) \<in> set W"
      and r: "r \<in> ?R" and i: "i < length (nodes r)" for r i
  proof -
    define k where "k = nodeIds r ! i"
    from inr w have "0 \<le> fst (k, nodes r ! i) \<and> nat (fst (k, nodes r ! i)) < length nv0"
      unfolding k_def by (rule bspec)
    then have k: "0 \<le> k" "nat k < length nv0" by simp_all
    from w have "fst (k, nodes r ! i) \<in> fst ` set W" unfolding k_def by (rule imageI)
    then have in_img: "int (nat k) \<in> fst ` set W" using k by simp
    from slot k(2) have "(\<exists>v. (int (nat k), v) \<in> set W \<and> nv ! nat k = v)
            \<or> (int (nat k) \<notin> fst ` set W \<and> nv ! nat k = nv0 ! nat k)"
      by blast
    with in_img obtain v where "(int (nat k), v) \<in> set W" "nv ! nat k = v"
      by blast
    with k have v: "(k, v) \<in> set W" "nv ! nat k = v" by simp_all
    from mem [OF v(1)] obtain q j where
      q: "q \<in> ?R" "j < length (nodes q)" "(k, v) = (nodeIds q ! j, nodes q ! j)"
      by blast
    then have e: "nodeIds r ! i = nodeIds q ! j" "v = nodes q ! j" by (simp_all add: k_def)
    from agree r q(1) i q(2) e(1) have "nodes r ! i = nodes q ! j" by blast
    with v e show ?thesis by (simp add: k_def)
  qed
  have organs: "\<forall>r \<in> set ?organs. \<forall>i < length (nodes r).
      nv ! nat (nodeIds r ! i) = nodes r ! i"
  proof (intro ballI allI impI)
    fix r i assume r: "r \<in> set ?organs" and i: "i < length (nodes r)"
    then have "(nodeIds r ! i, nodes r ! i) \<in> set ?wo" by force
    then have "(nodeIds r ! i, nodes r ! i) \<in> set W" by (simp add: W_def)
    moreover from r have "r \<in> ?R" by simp
    ultimately show "nv ! nat (nodeIds r ! i) = nodes r ! i"
      using i by (rule holds)
  qed
  have bases: "\<forall>r \<in> set (baseOrgans s). nv ! nat (nodeIds r ! 0) = nodes r ! 0"
  proof
    fix r assume r: "r \<in> set (baseOrgans s)"
    then have "(nodeIds r ! 0, nodes r ! 0) \<in> set ?wb" by auto
    then have "(nodeIds r ! 0, nodes r ! 0) \<in> set W" by (simp add: W_def)
    moreover from r have "r \<in> ?R" by simp
    moreover from r base have "0 < length (nodes r)" by simp
    ultimately show "nv ! nat (nodeIds r ! 0) = nodes r ! 0"
      by (rule holds)
  qed
  from run res len len0 organs bases show ?thesis by simp
qed

theorem getNodes_dense_witness:
  "\<exists>nv. getNodes (9, 9, 9) plant_example = Inr nv \<and> length nv = 9
     \<and> nv ! 8 = (3, 0, - 1) \<and> nv ! 5 = (0, 1, - 2) \<and> nv ! 3 = (5, 5, 0)"
proof -
  have size: "0 \<le> getNumberOfNodes plant_example"
    by (simp add: example_fields)
  have count: "0 \<le> getNumberOfOrgans plant_example"
    by (simp add: example_fields)
  have wf: "\<forall>r \<in> set (baseOrgans plant_example) \<union> set (traversal (- 1) plant_example).
               length (nodeIds r) = length (nodes r)
               \<and> (\<forall>k \<in> set (nodeIds r). 0 \<le> k \<and> k < getNumberOfNodes plant_example)"
    by (simp add: example_fields)
  have base: "\<forall>r \<in> set (baseOrgans plant_example). nodes r \<noteq> []"
    by (simp add: example_fields)
  have agree: "\<forall>r \<in> set (baseOrgans plant_example) \<union> set (traversal (- 1) plant_example).
                \<forall>q \<in> set (baseOrgans plant_example) \<union> set (traversal (- 1) plant_example).
                \<forall>i < length (nodes r). \<forall>j < length (nodes q).
                   nodeIds r ! i = nodeIds q ! j \<longrightarrow> nodes r ! i = nodes q ! j"
    by (simp add: example_fields All_less_Suc)
  from getNodes_dense [OF size count wf base agree, of "(9, 9, 9)"] obtain nv where
    run: "getNodes (9, 9, 9) plant_example = Inr nv"
    and len: "length nv = nat (getNumberOfNodes plant_example)"
    and org: "\<forall>r \<in> set (traversal (- 1) plant_example). \<forall>i < length (nodes r).
           nv ! nat (nodeIds r ! i) = nodes r ! i"
    and bas: "\<forall>r \<in> set (baseOrgans plant_example). nv ! nat (nodeIds r ! 0) = nodes r ! 0"
    by blast
  from org have b: "nv ! 8 = (3, 0, - 1)" and c: "nv ! 5 = (0, 1, - 2)"
    by (simp_all add: example_fields All_less_Suc)
  from bas have d: "nv ! 3 = (5, 5, 0)" by (simp add: example_fields)
  from len have "length nv = 9" by (simp add: example_fields)
  with run b c d show ?thesis by blast
qed

section \<open>Moved tips\<close>

text \<open>
  Claim C2 as stated fails.  The base organ \<open>organ_F\<close> has a single node, its last
  step moved that node and appended nothing, yet neither \<open>getUpdatedNodeIndices()\<close>
  nor \<open>getUpdatedNodes()\<close> reports it: both walk \<open>getOrgans()\<close>, which lists only
  organs with more than one node.
\<close>

theorem one_node_organ_not_reported:
  "organ_F \<in> set (baseOrgans seedling_example) \<and> only_moved organ_F
   \<and> getUpdatedNodeIndices seedling_example = Inr []
   \<and> getUpdatedNodes seedling_example = Inr []"
proof -
  have "Organ_getOrgans (- 1) organ_F = []"
    by (simp add: organ_F_def)
  then have "traversal (- 1) seedling_example = []"
    by (simp add: traversal_def seedling_example_def)
  moreover have "0 \<le> getNumberOfOrgans seedling_example"
    by (simp add: getNumberOfOrgans_def seedling_example_def)
  ultimately have "getOrgans (- 1) seedling_example = Inr []"
    by (simp add: getOrgans_ok)
  then show ?thesis
    by (simp add: getUpdatedNodeIndices_def getUpdatedNodes_def only_moved_def
        seedling_example_def organ_F_def)
qed

lemma updated_loop:
  assumes "\<forall>q \<in> set organs. 0 < hasMoved q \<longrightarrow>
             1 \<le> getOldNumberOfNodes q \<and> nat (getOldNumberOfNodes q - 1) < length (sel q)"
  shows "for_each organs
           (\<lambda>r acc. if hasMoved r > 0
                then (case vector_at (sel r) (getOldNumberOfNodes r - 1) of
                        Inl e \<Rightarrow> Inl e
                      | Inr k \<Rightarrow> Inr (acc @ [k]))
                else Inr acc) acc
       = Inr (acc @ map (\<lambda>q. sel q ! nat (getOldNumberOfNodes q - 1))
                      (filter (\<lambda>q. 0 < hasMoved q) organs))"
  using assms
proof (induction organs arbitrary: acc)
  case Nil
  then show ?case by simp
next
  case (Cons r rs)
  show ?case
  proof (cases "0 < hasMoved r")
    case False
    with Cons show ?thesis by simp
  next
    case True
    with Cons.prems have "vector_at (sel r) (getOldNumberOfNodes r - 1)
        = Inr (sel r ! nat (getOldNumberOfNodes r - 1))"
      by (simp add: vector_at_def)
    with True Cons show ?thesis by simp
  qed
qed

lemma filter_entry_of_position:
  assumes "j < length xs" and "P (xs ! j)"
  shows "length (filter P (take j xs)) < length (filter P xs)
       \<and> filter P xs ! length (filter P (take j xs)) = xs ! j"
proof -
  have "xs = take j xs @ xs ! j # drop (Suc j) xs"
    using assms(1) by (simp add: id_take_nth_drop [symmetric])
  then have "filter P xs = filter P (take j xs) @ xs ! j # filter P (drop (Suc j) xs)"
    using assms(2) by (metis filter.simps(2) filter_append)
  then show ?thesis by (simp add: nth_append)
qed

text \<open>
  Claim C2, amended.  Let the organ count be not negative and every organ of the
  traversal with a positive \<open>hasMoved()\<close> have a recorded node count between 1 and its
  number of nodes, and one node id per node.  Then \<open>getUpdatedNodeIndices()\<close> and
  \<open>getUpdatedNodes()\<close> return one entry for each organ of the traversal with a positive
  \<open>hasMoved()\<close>, in the order of the traversal.  An organ at place \<open>j\<close> of the
  traversal whose last step only moved its tip has the entry whose number is the count of
  moved organs before place \<open>j\<close>, so it has exactly one entry; the entry is its last
  node id and its last node, and the loop of \<open>getNewNodes()\<close> over this organ stores
  nothing.
\<close>

theorem moved_organ_reported_once:
  assumes count: "0 \<le> getNumberOfOrgans s"
    and ok: "\<forall>q \<in> set (traversal (- 1) s). 0 < hasMoved q \<longrightarrow>
                 1 \<le> getOldNumberOfNodes q
                 \<and> getOldNumberOfNodes q \<le> int (length (nodes q))
                 \<and> length (nodeIds q) = length (nodes q)"
  shows "\<exists>ni nv. getUpdatedNodeIndices s = Inr ni \<and> getUpdatedNodes s = Inr nv
       \<and> ni = map (\<lambda>q. nodeIds q ! nat (getOldNumberOfNodes q - 1))
                 (filter (\<lambda>q. 0 < hasMoved q) (traversal (- 1) s))
       \<and> nv = map (\<lambda>q. nodes q ! nat (getOldNumberOfNodes q - 1))
                 (filter (\<lambda>q. 0 < hasMoved q) (traversal (- 1) s))
       \<and> (\<forall>j < length (traversal (- 1) s). only_moved (traversal (- 1) s ! j) \<longrightarrow>
             entry_number (traversal (- 1) s) j < length ni
             \<and> ni ! entry_number (traversal (- 1) s) j = last (nodeIds (traversal (- 1) s ! j))
             \<and> nv ! entry_number (traversal (- 1) s) j = last (nodes (traversal (- 1) s ! j))
             \<and> (\<forall>xs. getNewNodes_organ (oldNumberOfNodes s) (traversal (- 1) s ! j) xs
                       = Inr xs))"
proof -
  let ?organs = "traversal (- 1) s"
  let ?moved = "\<lambda>q. 0 < hasMoved q"
  let ?ni = "map (\<lambda>q. nodeIds q ! nat (getOldNumberOfNodes q - 1)) (filter ?moved ?organs)"
  let ?nv = "map (\<lambda>q. nodes q ! nat (getOldNumberOfNodes q - 1)) (filter ?moved ?organs)"
  have a: "\<forall>q \<in> set ?organs. 0 < hasMoved q \<longrightarrow>
             1 \<le> getOldNumberOfNodes q \<and> nat (getOldNumberOfNodes q - 1) < length (nodeIds q)"
    using ok by auto
  have ni: "getUpdatedNodeIndices s = Inr ?ni"
    unfolding getUpdatedNodeIndices_def Organ_getNodeId_def getOrgans_ok [OF count]
    using updated_loop [of ?organs nodeIds "[]", OF a] by simp
  have b: "\<forall>q \<in> set ?organs. 0 < hasMoved q \<longrightarrow>
             1 \<le> getOldNumberOfNodes q \<and> nat (getOldNumberOfNodes q - 1) < length (nodes q)"
    using ok by auto
  have nv: "getUpdatedNodes s = Inr ?nv"
    unfolding getUpdatedNodes_def Organ_getNode_def getOrgans_ok [OF count]
    using updated_loop [of ?organs nodes "[]", OF b] by simp
  have entry: "entry_number ?organs j < length ?ni
      \<and> ?ni ! entry_number ?organs j = last (nodeIds (?organs ! j))
      \<and> ?nv ! entry_number ?organs j = last (nodes (?organs ! j))
      \<and> (\<forall>xs. getNewNodes_organ (oldNumberOfNodes s) (?organs ! j) xs = Inr xs)"
    if j: "j < length ?organs" and m: "only_moved (?organs ! j)" for j
  proof -
    define r where "r = ?organs ! j"
    from j have r: "r \<in> set ?organs" by (simp add: r_def)
    from m have old: "getOldNumberOfNodes r = int (length (nodes r))" and mv: "0 < hasMoved r"
      by (simp_all add: only_moved_def r_def)
    from traversal_nodes [OF r] have n: "1 < length (nodes r)" .
    from ok r mv have al: "length (nodeIds r) = length (nodes r)" by blast
    from n old have idx: "nat (getOldNumberOfNodes r - 1) = length (nodes r) - 1" by simp
    from n al have ne: "nodeIds r \<noteq> []" "nodes r \<noteq> []" by auto
    then have last: "nodeIds r ! nat (getOldNumberOfNodes r - 1) = last (nodeIds r)"
      "nodes r ! nat (getOldNumberOfNodes r - 1) = last (nodes r)"
      unfolding idx using al by (simp_all add: last_conv_nth)
    from filter_entry_of_position [of j ?organs ?moved] j mv
    have pos: "entry_number ?organs j < length (filter ?moved ?organs)"
      "filter ?moved ?organs ! entry_number ?organs j = r"
      by (simp_all add: entry_number_def r_def)
    have none: "getNewNodes_organ (oldNumberOfNodes s) r xs = Inr xs" for xs :: "'a list"
      using old
      by (simp add: getNewNodes_organ_def Let_def size_t_of_int_def Organ_getNumberOfNodes_def
          for_loop_for_each)
    from pos last none show ?thesis
      unfolding r_def [symmetric] by simp
  qed
  from ni nv entry show ?thesis by blast
qed

theorem moved_organ_reported_once_witness:
  "getUpdatedNodeIndices plant_example = Inr [5]
   \<and> getUpdatedNodes plant_example = Inr [(0, 1, - 2)]
   \<and> traversal (- 1) plant_example ! 2 = organ_C \<and> only_moved organ_C
   \<and> entry_number (traversal (- 1) plant_example) 2 = 0
   \<and> last (nodeIds organ_C) = 5 \<and> last (nodes organ_C) = (0, 1, - 2)
   \<and> getNewNodes_organ 6 organ_C [(7, 7, 7)] = Inr [(7, 7, 7)]"
proof -
  have count: "0 \<le> getNumberOfOrgans plant_example"
    by (simp add: example_fields)
  have ok: "\<forall>q \<in> set (traversal (- 1) plant_example). 0 < hasMoved q \<longrightarrow>
                 1 \<le> getOldNumberOfNodes q
                 \<and> getOldNumberOfNodes q \<le> int (length (nodes q))
                 \<and> length (nodeIds q) = length (nodes q)"
    by (simp add: example_fields)
  have c: "traversal (- 1) plant_example ! 2 = organ_C"
    "(2::nat) < length (traversal (- 1) plant_example)"
    by (simp_all add: example_fields)
  have m: "only_moved organ_C"
    by (simp add: only_moved_def example_fields)
  have e: "entry_number (traversal (- 1) plant_example) 2 = 0"
    by (simp add: entry_number_def example_fields numeral_2_eq_2)
  from moved_organ_reported_once [OF count ok] obtain ni nv where
    i: "getUpdatedNodeIndices plant_example = Inr ni"
    and v: "getUpdatedNodes plant_example = Inr nv"
    and p: "\<forall>j < length (traversal (- 1) plant_example).
        only_moved (traversal (- 1) plant_example ! j) \<longrightarrow>
             entry_number (traversal (- 1) plant_example) j < length ni
             \<and> ni ! entry_number (traversal (- 1) plant_example) j
                 = last (nodeIds (traversal (- 1) plant_example ! j))
             \<and> nv ! entry_number (traversal (- 1) plant_example) j
                 = last (nodes (traversal (- 1) plant_example ! j))
             \<and> (\<forall>xs. getNewNodes_organ (oldNumberOfNodes plant_example)
                        (traversal (- 1) plant_example ! j) xs = Inr xs)"
    and ni: "ni = map (\<lambda>q. nodeIds q ! nat (getOldNumberOfNodes q - 1))
                 (filter (\<lambda>q. 0 < hasMoved q) (traversal (- 1) plant_example))"
    and nv: "nv = map (\<lambda>q. nodes q ! nat (getOldNumberOfNodes q - 1))
                 (filter (\<lambda>q. 0 < hasMoved q) (traversal (- 1) plant_example))"
    by blast
  from ni nv have "ni = [5]" "nv = [(0, 1, - 2)]"
    by (simp_all add: example_fields)
  with i v have r: "getUpdatedNodeIndices plant_example = Inr [5]"
    "getUpdatedNodes plant_example = Inr [(0, 1, - 2)]"
    by simp_all
  from p c m have "\<forall>xs. getNewNodes_organ (oldNumberOfNodes plant_example) organ_C xs = Inr xs"
    by force
  then have n: "getNewNodes_organ 6 organ_C [(7, 7, 7)] = Inr [(7, 7, 7)]"
    by (simp add: example_fields)
  have l: "last (nodeIds organ_C) = 5" "last (nodes organ_C) = (0, 1, - 2)"
    by (simp_all add: example_fields)
  from r c(1) m e l n show ?thesis by simp
qed

section \<open>New segments\<close>

lemma fill_fresh:
  "0 \<le> n \<Longrightarrow>
   (case for_each xs store_next (replicate (nat n) d, 0) of
      Inl e \<Rightarrow> Inl e | Inr (si, c) \<Rightarrow> Inr si) = filled n d xs"
  by (auto simp: store_next_fill filled_def)

lemma newSegment_bounds:
  assumes "getOldNumberOfNodes r \<noteq> 0" and "1 < length (nodes r)"
  shows "size_t_of_int (\<bar>getOldNumberOfNodes r\<bar> - 1) = nat (\<bar>getOldNumberOfNodes r\<bar> - 1)"
    and "size_t_pred (Organ_getNumberOfNodes r) = length (nodes r) - 1"
    and "size_t_of_int \<bar>getOldNumberOfNodes r\<bar> = Suc (nat (\<bar>getOldNumberOfNodes r\<bar> - 1))"
  using assms
  by (auto simp: size_t_of_int_def size_t_pred_def Organ_getNumberOfNodes_def)

lemma getNewSegments_organ_stores:
  assumes al: "length (nodeIds r) = length (nodes r)"
    and old: "getOldNumberOfNodes r \<noteq> 0" and n: "1 < length (nodes r)"
  shows "getNewSegments_organ r st
     = for_each (map (segment r) (newSegmentIndices r)) store_next st"
proof -
  let ?body = "\<lambda>i (si, c).
           case Organ_getNodeId r (int i) of
             Inl e \<Rightarrow> Inl e
           | Inr a \<Rightarrow> (case Organ_getNodeId r (int (i + 1)) of
                         Inl e \<Rightarrow> Inl e
                       | Inr b \<Rightarrow> (case vector_store si c (a, b) of
                                     Inl e \<Rightarrow> Inl e
                                   | Inr si' \<Rightarrow> Inr (si', c + 1)))"
  have step: "?body i sc = store_next (segment r i) sc"
    if "i \<in> set (newSegmentIndices r)" for i sc
  proof -
    from that have "i < length (nodes r) - 1" by (simp add: newSegmentIndices_def)
    then have "i + 1 < length (nodes r)" by arith
    moreover have "nat (1 + int i) = Suc i" by arith
    ultimately show ?thesis
      using al
      by (cases sc)
         (simp add: Organ_getNodeId_def vector_at_def store_next_def segment_def
            cong: sum.case_cong)
  qed
  have "getNewSegments_organ r st = for_each (newSegmentIndices r) ?body st"
    by (simp add: getNewSegments_organ_def Let_def newSegment_bounds [OF old n]
        for_loop_for_each newSegmentIndices_def)
  also have "\<dots> = for_each (newSegmentIndices r) (\<lambda>i. store_next (segment r i)) st"
    by (rule for_each_cong) (rule step)
  finally show ?thesis by (simp add: for_each_map)
qed

lemma getNewSegmentOrigins_organ_stores:
  assumes old: "getOldNumberOfNodes r \<noteq> 0" and n: "1 < length (nodes r)"
  shows "getNewSegmentOrigins_organ r st
     = for_each (map (\<lambda>j. Some r) (newSegmentIndices r)) store_next st"
proof -
  let ?body = "\<lambda>i (si, c).
           case vector_store si c (Some r) of
             Inl e \<Rightarrow> Inl e
           | Inr si' \<Rightarrow> Inr (si', c + 1)"
  have step: "?body i sc = store_next (Some r) sc" for i :: nat and sc
    by (cases sc) (simp add: store_next_def cong: sum.case_cong)
  have "getNewSegmentOrigins_organ r st = for_each (newSegmentIndices r) ?body st"
    by (simp add: getNewSegmentOrigins_organ_def Let_def newSegment_bounds [OF old n]
        for_loop_for_each newSegmentIndices_def)
  also have "\<dots> = for_each (newSegmentIndices r) (\<lambda>i. store_next (Some r)) st"
    by (rule for_each_cong) (rule step)
  finally show ?thesis by (simp add: for_each_map)
qed

lemma copy_nodeCT_store:
  assumes "i < length (nodes r)" and "length (nodeIds r) = length (nodes r)"
    and "length (nodeCTs r) = length (nodes r)"
  shows "copy_nodeCT r (int i) off cts = store_pair (nodeIds r ! i - off, nodeCTs r ! i) cts"
  using assms
  by (simp add: copy_nodeCT_def Organ_getNodeId_def Organ_getNodeCT_def vector_at_def
      store_pair_def)

lemma getNewSegmentCTs_organ_stores:
  assumes al: "length (nodeIds r) = length (nodes r)" "length (nodeCTs r) = length (nodes r)"
    and old: "getOldNumberOfNodes r \<noteq> 0" and n: "1 < length (nodes r)"
  shows "getNewSegmentCTs_organ off r cts
     = for_each (map (\<lambda>j. (nodeIds r ! (j + 1) - off, nodeCTs r ! (j + 1)))
                   (newSegmentIndices r)) store_pair cts"
proof -
  let ?lo = "nat (\<bar>getOldNumberOfNodes r\<bar> - 1)"
  have "Suc (length (nodes r) - 1) = length (nodes r)" using n by simp
  then have range: "[Suc ?lo..<length (nodes r)] = map Suc (newSegmentIndices r)"
    unfolding newSegmentIndices_def map_Suc_upt by simp
  have "getNewSegmentCTs_organ off r cts
      = for_each [Suc ?lo..<length (nodes r)] (\<lambda>i. copy_nodeCT r (int i) off) cts"
    by (simp add: getNewSegmentCTs_organ_def Let_def newSegment_bounds [OF old n]
        for_loop_for_each Organ_getNumberOfNodes_def)
  also have "\<dots> = for_each [Suc ?lo..<length (nodes r)]
                     (\<lambda>i. store_pair (nodeIds r ! i - off, nodeCTs r ! i)) cts"
    by (rule for_each_cong) (simp add: copy_nodeCT_store al)
  finally show ?thesis
    unfolding range by (simp add: for_each_map)
qed

lemma getNewSegments_filled:
  assumes count: "0 \<le> getNumberOfOrgans s"
    and al: "\<forall>r \<in> set (traversal ot s).
                 length (nodeIds r) = length (nodes r) \<and> getOldNumberOfNodes r \<noteq> 0"
  shows "getNewSegments dflt ot s
           = filled (getNumberOfNewNodes s) dflt
               (concat (map (\<lambda>r. map (segment r) (newSegmentIndices r)) (traversal ot s)))"
proof -
  let ?N = "getNumberOfNewNodes s"
  have segs: "for_each (traversal ot s) getNewSegments_organ st
      = for_each (concat (map (\<lambda>r. map (segment r) (newSegmentIndices r)) (traversal ot s)))
          store_next st" for st
  proof -
    have "for_each (traversal ot s) getNewSegments_organ st
        = for_each (traversal ot s)
            (\<lambda>r. for_each (map (segment r) (newSegmentIndices r)) store_next) st"
    proof (rule for_each_cong)
      fix r st' assume r: "r \<in> set (traversal ot s)"
      from al r have a: "length (nodeIds r) = length (nodes r)" "getOldNumberOfNodes r \<noteq> 0"
        by blast+
      from traversal_nodes [OF r] have n: "1 < length (nodes r)" .
      from a n show "getNewSegments_organ r st'
          = for_each (map (segment r) (newSegmentIndices r)) store_next st'"
        by (simp add: getNewSegments_organ_stores)
    qed
    then show ?thesis by (simp add: for_each_map for_each_concat [symmetric])
  qed
  show ?thesis
  proof (cases "?N < 0")
    case True
    then show ?thesis
      by (simp add: getNewSegments_def getOrgans_ok [OF count] new_vector_def filled_def)
  next
    case False
    then have "0 \<le> ?N" by simp
    from fill_fresh [OF this] False show ?thesis
      by (simp add: getNewSegments_def getOrgans_ok [OF count] new_vector_def segs)
  qed
qed

lemma getNewSegmentOrigins_filled:
  assumes count: "0 \<le> getNumberOfOrgans s"
    and al: "\<forall>r \<in> set (traversal ot s). getOldNumberOfNodes r \<noteq> 0"
  shows "getNewSegmentOrigins ot s
           = filled (getNumberOfNewNodes s) None
               (concat (map (\<lambda>r. map (\<lambda>j. Some r) (newSegmentIndices r)) (traversal ot s)))"
proof -
  let ?N = "getNumberOfNewNodes s"
  have orgs: "for_each (traversal ot s) getNewSegmentOrigins_organ st
      = for_each (concat (map (\<lambda>r. map (\<lambda>j. Some r) (newSegmentIndices r)) (traversal ot s)))
          store_next st" for st
  proof -
    have "for_each (traversal ot s) getNewSegmentOrigins_organ st
        = for_each (traversal ot s)
            (\<lambda>r. for_each (map (\<lambda>j. Some r) (newSegmentIndices r)) store_next) st"
    proof (rule for_each_cong)
      fix r st' assume r: "r \<in> set (traversal ot s)"
      from al r have a: "getOldNumberOfNodes r \<noteq> 0" by blast
      from traversal_nodes [OF r] have n: "1 < length (nodes r)" .
      from a n show "getNewSegmentOrigins_organ r st'
          = for_each (map (\<lambda>j. Some r) (newSegmentIndices r)) store_next st'"
        by (simp add: getNewSegmentOrigins_organ_stores)
    qed
    then show ?thesis by (simp add: for_each_map for_each_concat [symmetric])
  qed
  show ?thesis
  proof (cases "?N < 0")
    case True
    then show ?thesis
      by (simp add: getNewSegmentOrigins_def getOrgans_ok [OF count] new_vector_def filled_def)
  next
    case False
    then have "0 \<le> ?N" by simp
    from fill_fresh [OF this] False show ?thesis
      by (simp add: getNewSegmentOrigins_def getOrgans_ok [OF count] new_vector_def orgs)
  qed
qed

lemma getNewSegmentCTs_stored:
  assumes count: "0 \<le> getNumberOfOrgans s"
    and al: "\<forall>r \<in> set (traversal (- 1) s).
                 length (nodeIds r) = length (nodes r)
                 \<and> length (nodeCTs r) = length (nodes r)
                 \<and> getOldNumberOfNodes r \<noteq> 0"
  shows "getNewSegmentCTs ot s
           = (if getNumberOfNewNodes s < 0 then Inl LengthError
              else for_each
                     (concat (map (\<lambda>r. map (\<lambda>j. (nodeIds r ! (j + 1) - oldNumberOfNodes s,
                                                 nodeCTs r ! (j + 1)))
                                          (newSegmentIndices r))
                                (traversal (- 1) s)))
                     store_pair (replicate (nat (getNumberOfNewNodes s)) 0))"
proof -
  have cts: "for_each (traversal (- 1) s) (getNewSegmentCTs_organ (oldNumberOfNodes s)) xs
      = for_each
          (concat (map (\<lambda>r. map (\<lambda>j. (nodeIds r ! (j + 1) - oldNumberOfNodes s,
                                      nodeCTs r ! (j + 1)))
                               (newSegmentIndices r))
                     (traversal (- 1) s)))
          store_pair xs" for xs
  proof -
    have "for_each (traversal (- 1) s) (getNewSegmentCTs_organ (oldNumberOfNodes s)) xs
        = for_each (traversal (- 1) s)
            (\<lambda>r. for_each (map (\<lambda>j. (nodeIds r ! (j + 1) - oldNumberOfNodes s,
                                      nodeCTs r ! (j + 1)))
                               (newSegmentIndices r)) store_pair) xs"
    proof (rule for_each_cong)
      fix r st' assume r: "r \<in> set (traversal (- 1) s)"
      from al r have a: "length (nodeIds r) = length (nodes r)"
        "length (nodeCTs r) = length (nodes r)" "getOldNumberOfNodes r \<noteq> 0"
        by blast+
      from traversal_nodes [OF r] have n: "1 < length (nodes r)" .
      from a n show "getNewSegmentCTs_organ (oldNumberOfNodes s) r st'
          = for_each (map (\<lambda>j. (nodeIds r ! (j + 1) - oldNumberOfNodes s,
                                 nodeCTs r ! (j + 1))) (newSegmentIndices r)) store_pair st'"
        by (simp add: getNewSegmentCTs_organ_stores)
    qed
    then show ?thesis by (simp add: for_each_map for_each_concat [symmetric])
  qed
  show ?thesis
    by (simp add: getNewSegmentCTs_def getOrgans_ok [OF count] new_vector_def cts)
qed

text \<open>
  For a recorded count other than 0 the three queries follow the range of the spec:
  \<open>getNewSegments(ot)\<close> stores the pairs of consecutive node ids of that range and
  \<open>getNewSegmentOrigins(ot)\<close> the organ of each pair, one after another from slot 0 in
  the order of \<open>getOrgans(ot)\<close>, and \<open>getNewSegmentCTs\<close> stores for each pair the
  creation time of its second node into the slot of that node's id minus the old node
  count of the organism.
\<close>

lemma spec_newSegmentIndices_eq: "spec_newSegmentIndices r = newSegmentIndices r"
proof -
  have "nat (max 1 \<bar>getOldNumberOfNodes r\<bar> - 1) = nat (\<bar>getOldNumberOfNodes r\<bar> - 1)"
    by arith
  then show ?thesis
    by (simp add: spec_newSegmentIndices_def newSegmentIndices_def)
qed

lemma plant_example_new_segments:
  "getNewSegments (0, 0) (- 1) plant_example = Inr [(2, 6), (4, 7), (7, 8)]"
  "getNewSegmentOrigins (- 1) plant_example = Inr [Some organ_A, Some organ_B, Some organ_B]"
  "getNewSegmentCTs (- 1) plant_example = Inr [5, 5, 6]"
proof -
  have count: "0 \<le> getNumberOfOrgans plant_example"
    by (simp add: example_fields)
  from getNewSegments_filled [OF count, of "- 1" "(0, 0)"]
  show "getNewSegments (0, 0) (- 1) plant_example = Inr [(2, 6), (4, 7), (7, 8)]"
    by (simp add: example_fields example_segment_indices segment_def filled_def)
  from getNewSegmentOrigins_filled [OF count, of "- 1"]
  show "getNewSegmentOrigins (- 1) plant_example
      = Inr [Some organ_A, Some organ_B, Some organ_B]"
    by (simp add: example_fields example_segment_indices filled_def)
  from getNewSegmentCTs_stored [OF count, of "- 1"]
  show "getNewSegmentCTs (- 1) plant_example = Inr [5, 5, 6]"
    by (simp add: example_fields example_segment_indices store_pair_def vector_store_def
        numeral_3_eq_3 numeral_2_eq_2)
qed




text \<open>
  \<open>getNewSegmentCTs(ot)\<close> does not pass \<open>ot\<close> on to \<open>getOrgans\<close>: for every organ
  type it returns what it returns for all organs, whereas \<open>getNewSegments(ot)\<close>, whose
  segments it is documented to match, keeps to the organs of the type.  No organ of the
  example is a stem (organ type 3).
\<close>

lemma getNewSegmentCTs_ignores_ot: "getNewSegmentCTs ot s = getNewSegmentCTs (- 1) s"
  by (simp add: getNewSegmentCTs_def)

lemma plant_example_stem_segments:
  "getNewSegments (0, 0) 3 plant_example = Inr [(0, 0), (0, 0), (0, 0)]"
  "getNewSegmentCTs 3 plant_example = Inr [5, 5, 6]"
proof -
  have count: "0 \<le> getNumberOfOrgans plant_example"
    by (simp add: example_fields)
  have "traversal 3 plant_example = []"
    by (simp add: traversal_def plant_example_fields organ_A_def organ_B_def organ_C_def
        organ_D_def)
  then show "getNewSegments (0, 0) 3 plant_example = Inr [(0, 0), (0, 0), (0, 0)]"
    by (simp add: getNewSegments_def getOrgans_ok [OF count] plant_example_fields
        new_vector_def numeral_3_eq_3)
  show "getNewSegmentCTs 3 plant_example = Inr [5, 5, 6]"
    by (simp only: getNewSegmentCTs_ignores_ot [of 3] plant_example_new_segments)
qed

section \<open>New nodes\<close>

lemma drop_as_nths: "drop lo xs = map (\<lambda>i. xs ! i) [lo..<length xs]"
proof -
  have "drop lo xs = drop lo (map (\<lambda>i. xs ! i) [0..<length xs])"
    by (simp add: map_nth)
  also have "\<dots> = map (\<lambda>i. xs ! i) [lo..<length xs]"
    by (simp add: drop_map)
  finally show ?thesis .
qed

lemma getNewNodes_stores:
  assumes count: "0 \<le> getNumberOfOrgans s"
    and wf: "\<forall>r \<in> set (traversal (- 1) s).
                 length (nodeIds r) = length (nodes r) \<and> 0 \<le> getOldNumberOfNodes r"
  shows "getNewNodes dflt s
           = (if getNumberOfNewNodes s < 0 then Inl LengthError
              else for_each (newNodeStores s) store_pair
                     (replicate (nat (getNumberOfNewNodes s)) dflt))"
proof -
  let ?off = "oldNumberOfNodes s"
  have "for_each (traversal (- 1) s) (getNewNodes_organ ?off) xs
      = for_each (traversal (- 1) s)
          (\<lambda>r. for_each (map (\<lambda>i. (nodeIds r ! i - ?off, nodes r ! i))
                           [nat (getOldNumberOfNodes r) ..< length (nodes r)]) store_pair) xs"
    for xs
  proof (rule for_each_cong)
    fix r st' assume r: "r \<in> set (traversal (- 1) s)"
    from wf r have a: "length (nodeIds r) = length (nodes r)" "0 \<le> getOldNumberOfNodes r"
      by blast+
    then show "getNewNodes_organ ?off r st'
        = for_each (map (\<lambda>i. (nodeIds r ! i - ?off, nodes r ! i))
                      [nat (getOldNumberOfNodes r) ..< length (nodes r)]) store_pair st'"
      by (simp add: getNewNodes_organ_def Let_def size_t_of_int_def copy_nodes_stores)
  qed
  then have "for_each (traversal (- 1) s) (getNewNodes_organ ?off) xs
      = for_each (newNodeStores s) store_pair xs" for xs
    by (simp add: newNodeStores_def for_each_map for_each_concat [symmetric])
  then show ?thesis
    by (simp add: getNewNodes_def getOrgans_ok [OF count] new_vector_def)
qed

lemma newNodeStores_slots:
  assumes wf: "\<forall>r \<in> set (traversal (- 1) s). length (nodeIds r) = length (nodes r)"
  shows "map fst (newNodeStores s) = map (\<lambda>k. k - oldNumberOfNodes s) (newNodeIds s)"
proof -
  have "map fst (map (\<lambda>i. (nodeIds r ! i - oldNumberOfNodes s, nodes r ! i))
                    [nat (getOldNumberOfNodes r) ..< length (nodes r)])
      = map (\<lambda>k. k - oldNumberOfNodes s) (drop (nat (getOldNumberOfNodes r)) (nodeIds r))"
    if "r \<in> set (traversal (- 1) s)" for r
    using wf that by (simp add: drop_as_nths [of _ "nodeIds r"] comp_def)
  then show ?thesis
    by (simp add: newNodeStores_def newNodeIds_def map_concat comp_def cong: map_cong)
qed

text \<open>
  On the example organism, where no recorded count is negative, \<open>getNewNodes()\<close> fills
  its vector with the three nodes appended in the step, each at the slot of its id minus
  the old node count 6.
\<close>

lemma plant_example_new_nodes:
  "getNewNodes (9, 9, 9) plant_example = Inr [(0, 0, - 3), (2, 0, - 1), (3, 0, - 1)]"
proof -
  have count: "0 \<le> getNumberOfOrgans plant_example"
    by (simp add: example_fields)
  have wf: "\<forall>r \<in> set (traversal (- 1) plant_example).
                 length (nodeIds r) = length (nodes r) \<and> 0 \<le> getOldNumberOfNodes r"
    by (simp add: example_fields)
  from getNewNodes_stores [OF count wf, of "(9, 9, 9)"] show ?thesis
    by (simp add: plant_example_new example_fields store_pair_def vector_store_def
        numeral_3_eq_3 numeral_2_eq_2)
qed



end
